theory Spec2Isabelle
  imports Main "HOL-Library.Word"
begin

section \<open>Values of the program\<close>

text \<open>
  An \<^verbatim>\<open>error\<close> interface value. Go compares two such values by dynamic type and, for the
  pointer that \<^verbatim>\<open>errors.New\<close> returns, by address: \<open>err_id\<close> is that identity,
  \<open>err_msg\<close> the text of \<^verbatim>\<open>Error()\<close>, and \<open>err_temporary\<close> is \<open>Some t\<close> when the
  dynamic type implements \<^verbatim>\<open>net.Error\<close> with \<^verbatim>\<open>Temporary() = t\<close>, \<open>None\<close> when it
  does not implement \<^verbatim>\<open>net.Error\<close>. A nil error is \<open>None :: goerror option\<close>.
\<close>

datatype goerror = GoError (err_id: nat) (err_msg: string) (err_temporary: "bool option")

text \<open>listener.go, line 123: \<^verbatim>\<open>var errHijacked = errors.New("hijacked connection")\<close>.\<close>

definition errHijacked :: goerror where
  "errHijacked = GoError 0 ''hijacked connection'' None"

text \<open>The ways a goroutine of this file can panic.\<close>

datatype panic =
    TypeAssertionFailed
  | NilDereference
  | SendOnClosedChannel
  | NegativeWaitGroup
  | CloseOfClosedChannel
  | HandlerPanic

text \<open>
  What the operating system answers for one TCP socket: the error (or nil) of
  \<^verbatim>\<open>SyscallConn\<close>, of \<^verbatim>\<open>rawConn.Control\<close> and of \<^verbatim>\<open>syscall.WSAIoctl\<close>.
\<close>

datatype tcp_socket =
  TcpSocket (syscallconn_err: "goerror option") (control_err: "goerror option")
    (wsaioctl_err: "goerror option")

text \<open>
  A non-nil \<^verbatim>\<open>net.Conn\<close> by dynamic type: a \<^verbatim>\<open>*net.TCPConn\<close>, another type that has
  the two methods of the interface \<^verbatim>\<open>tcpConnection\<close> (lines 83-86), or a type without
  them. The number names the connection.
\<close>

datatype net_Conn =
    TCPConn nat tcp_socket
  | KeepAliveConn nat
  | OtherConn nat

fun implements_tcpConnection :: "net_Conn \<Rightarrow> bool" where
  "implements_tcpConnection (TCPConn n sock) = True"
| "implements_tcpConnection (KeepAliveConn n) = True"
| "implements_tcpConnection (OtherConn n) = False"

text \<open>\<^verbatim>\<open>syscall.TCPKeepalive\<close>: three \<^verbatim>\<open>uint32\<close> fields, times in milliseconds.\<close>

datatype TCPKeepalive =
  TCPKeepalive (OnOff: "32 word") (Time: "32 word") (Interval: "32 word")

text \<open>\<^verbatim>\<open>tls.ConnectionState\<close>, reduced to some of its fields.\<close>

datatype tls_ConnectionState =
  TlsState (Version: "16 word") (HandshakeComplete: bool) (CipherSuite: "16 word")
    (NegotiatedProtocol: string) (ServerName: string)

text \<open>
  An \<^verbatim>\<open>interface{}\<close> value of the variable store: nil, a \<^verbatim>\<open>[]*tls.ConnectionState\<close>
  (each element a pointer, \<open>None\<close> the nil pointer; a nil slice is the empty list), or a
  value of any other dynamic type.
\<close>

datatype goval =
    VNil
  | VConnectionStates "tls_ConnectionState option list"
  | VOther string

type_synonym bytes_Buffer = "8 word list"

text \<open>
  Modelled from the spec: the type \<^verbatim>\<open>Connection\<close> and \<^verbatim>\<open>WrapConnection\<close>,
  \<^verbatim>\<open>GetVar\<close> are not in listener.go. The connection context owns the wrapped connection,
  a byte buffer borrowed from the pool and named variables; \<open>cx_listener\<close> is the
  back-reference of line 139. \<open>cx_id\<close> is the identity of the \<^verbatim>\<open>*Connection\<close> pointer.
\<close>

record Connection =
  cx_id :: nat
  cx_conn :: net_Conn
  cx_buf :: bytes_Buffer
  cx_vars :: "(string \<times> goval) list"
  cx_listener :: bool

definition WrapConnection :: "nat \<Rightarrow> net_Conn \<Rightarrow> bytes_Buffer \<Rightarrow> Connection" where
  "WrapConnection i conn buf =
     \<lparr>cx_id = i, cx_conn = conn, cx_buf = buf, cx_vars = [], cx_listener = False\<rparr>"

definition SetVar :: "string \<Rightarrow> goval \<Rightarrow> Connection \<Rightarrow> Connection" where
  "SetVar k v cx = cx\<lparr>cx_vars := (k, v) # cx_vars cx\<rparr>"

definition GetVar :: "Connection \<Rightarrow> string \<Rightarrow> goval" where
  "GetVar cx k = (case map_of (cx_vars cx) k of None \<Rightarrow> VNil | Some v \<Rightarrow> v)"

text \<open>Lines 183-186: \<^verbatim>\<open>type tlsConnection struct { net.Conn; connState *tls.ConnectionState }\<close>.\<close>

datatype tlsConnection =
  TlsConnection (tc_Conn: Connection) (connState: "tls_ConnectionState option")

text \<open>What travels on \<^verbatim>\<open>connChan\<close>: a \<^verbatim>\<open>*Connection\<close> or a \<^verbatim>\<open>*tlsConnection\<close>.\<close>

datatype chan_item =
    PlainItem Connection
  | TlsItem tlsConnection

fun item_Connection :: "chan_item \<Rightarrow> Connection" where
  "item_Connection (PlainItem cx) = cx"
| "item_Connection (TlsItem tc) = tc_Conn tc"

text \<open>Lines 188-190: dereferences the pointer; a nil pointer panics.\<close>

definition ConnectionState :: "tlsConnection \<Rightarrow> panic + tls_ConnectionState" where
  "ConnectionState tc =
     (case connState tc of None \<Rightarrow> Inl NilDereference | Some st \<Rightarrow> Inr st)"

text \<open>What the program writes and does to the outside, in order.\<close>

datatype event =
    LogError string goerror
  | LogWarn string goerror
  | LogDebug string net_Conn
  | Println string goerror
  | CallWSAIoctl nat TCPKeepalive
  | CallSetKeepAlive nat bool
  | CallSetKeepAlivePeriod nat nat
  | CallClose net_Conn

fun is_capability_call :: "event \<Rightarrow> bool" where
  "is_capability_call (CallSetKeepAlive n b) = True"
| "is_capability_call (CallSetKeepAlivePeriod n d) = True"
| "is_capability_call e = False"

section \<open>The keepalive configurator\<close>

text \<open>Lines 198-202.\<close>

definition keepaliveParams :: TCPKeepalive where
  "keepaliveParams = TCPKeepalive 1 120000 15000"

text \<open>
  Lines 192-221. The type assertion of line 193 panics on anything but a
  \<^verbatim>\<open>*net.TCPConn\<close>. \<^verbatim>\<open>Control\<close> runs the closure only when it does not fail itself;
  the closure's \<^verbatim>\<open>err\<close> shadows the outer one, so a failure of the ioctl is printed with
  \<^verbatim>\<open>fmt.Println\<close> and the function returns what \<^verbatim>\<open>Control\<close> returned.
\<close>

definition setKeepAliveWorkarround :: "net_Conn \<Rightarrow> panic + (event list \<times> goerror option)" where
  "setKeepAliveWorkarround conn =
     (case conn of
        TCPConn n sock \<Rightarrow>
          (case syscallconn_err sock of
             Some err \<Rightarrow> Inr ([], Some err)
           | None \<Rightarrow>
               (case control_err sock of
                  Some err \<Rightarrow> Inr ([], Some err)
                | None \<Rightarrow>
                    (case wsaioctl_err sock of
                       Some err \<Rightarrow>
                         Inr ([CallWSAIoctl n keepaliveParams, Println ''WSAIoctl error:'' err],
                              None)
                     | None \<Rightarrow> Inr ([CallWSAIoctl n keepaliveParams], None))))
      | KeepAliveConn n \<Rightarrow> Inl TypeAssertionFailed
      | OtherConn n \<Rightarrow> Inl TypeAssertionFailed)"

section \<open>One iteration of the accept loop\<close>

text \<open>
  \<^verbatim>\<open>net.Listener.Accept\<close> returns a connection or an error.
\<close>

datatype accept_result =
    Accepted net_Conn
  | AcceptFailed goerror

datatype loop_next =
    Retry
  | Stop goerror
  | Dispatch net_Conn
  | Crash panic

text \<open>Lines 91-106: what the loop logs and where it goes after one call of Accept.\<close>

definition loop_iter :: "accept_result \<Rightarrow> event list \<times> loop_next" where
  "loop_iter r =
     (case r of
        AcceptFailed err \<Rightarrow>
          if err_temporary err = Some True
          then ([LogError ''temporary error accepting connection'' err], Retry)
          else ([], Stop err)
      | Accepted conn \<Rightarrow>
          if implements_tcpConnection conn
          then (case setKeepAliveWorkarround conn of
                  Inl p \<Rightarrow> ([], Crash p)
                | Inr (evs, None) \<Rightarrow> (evs, Dispatch conn)
                | Inr (evs, Some err) \<Rightarrow>
                    (evs @ [LogWarn ''unable to set keepalive for new connection:'' err],
                     Dispatch conn))
          else ([], Dispatch conn))"

section \<open>The hand-off channel and the listener\<close>

text \<open>
  A buffered channel of capacity \<open>ch_cap\<close> (\<^verbatim>\<open>runtime.GOMAXPROCS(0)\<close>, line 58, which is
  at least 1).
\<close>

record chan =
  ch_buf :: "chan_item list"
  ch_cap :: nat
  ch_closed :: bool

datatype 'a blocking =
    Blocked
  | Panicked panic
  | Done 'a

text \<open>A send panics on a closed channel, blocks on a full one.\<close>

definition chan_send :: "chan_item \<Rightarrow> chan \<Rightarrow> chan blocking" where
  "chan_send v c =
     (if ch_closed c then Panicked SendOnClosedChannel
      else if length (ch_buf c) < ch_cap c then Done (c\<lparr>ch_buf := ch_buf c @ [v]\<rparr>)
      else Blocked)"

datatype recv =
    RecvBlocked
  | RecvClosed
  | Recv chan_item chan

text \<open>A receive takes the oldest item, also from a closed channel, until it is empty.\<close>

definition chan_recv :: "chan \<Rightarrow> recv" where
  "chan_recv c =
     (case ch_buf c of
        v # vs \<Rightarrow> Recv v (c\<lparr>ch_buf := vs\<rparr>)
      | [] \<Rightarrow> if ch_closed c then RecvClosed else RecvBlocked)"

text \<open>Lines 70-81: the fields of \<^verbatim>\<open>listener\<close> that the goroutines share.\<close>

record listener =
  l_err :: "goerror option"
  connChan :: chan
  wg :: int

text \<open>Lines 156-162.\<close>

definition Accept :: "listener \<Rightarrow> ((chan_item option \<times> goerror option) \<times> listener) blocking" where
  "Accept l =
     (case chan_recv (connChan l) of
        Recv conn c \<Rightarrow> Done ((Some conn, None), l\<lparr>connChan := c\<rparr>)
      | RecvClosed \<Rightarrow> Done ((None, l_err l), l)
      | RecvBlocked \<Rightarrow> Blocked)"

text \<open>Lines 167-170: the type assertion is unchecked.\<close>

definition connectionStates_of :: "goval \<Rightarrow> panic + tls_ConnectionState option list" where
  "connectionStates_of val =
     (case val of
        VNil \<Rightarrow> Inr []
      | VConnectionStates ss \<Rightarrow> Inr ss
      | VOther t \<Rightarrow> Inl TypeAssertionFailed)"

text \<open>Lines 171-178: the value that is sent.\<close>

definition pipe_item :: "Connection \<Rightarrow> tls_ConnectionState option list \<Rightarrow> chan_item" where
  "pipe_item conn connectionStates =
     (if length connectionStates > 0
      then TlsItem (TlsConnection conn (connectionStates ! (length connectionStates - 1)))
      else PlainItem conn)"

text \<open>Lines 164-180.\<close>

definition pipeConnection :: "listener \<Rightarrow> Connection \<Rightarrow> (listener \<times> goerror) blocking" where
  "pipeConnection l conn =
     (case connectionStates_of (GetVar conn ''tls_connection_states'') of
        Inl p \<Rightarrow> Panicked p
      | Inr connectionStates \<Rightarrow>
          (case chan_send (pipe_item conn connectionStates) (connChan l) of
             Blocked \<Rightarrow> Blocked
           | Panicked p \<Rightarrow> Panicked p
           | Done c \<Rightarrow> Done (l\<lparr>connChan := c\<rparr>, errHijacked)))"


text \<open>\<^verbatim>\<open>close\<close> of a closed channel panics.\<close>

definition chan_close :: "chan \<Rightarrow> panic + chan" where
  "chan_close c =
     (if ch_closed c then Inl CloseOfClosedChannel else Inr (c\<lparr>ch_closed := True\<rparr>))"

section \<open>The buffer pool\<close>

text \<open>
  Modelled from the spec: \<^verbatim>\<open>bufPool\<close> is declared outside listener.go. It is a
  process-wide pool of reusable byte buffers; \<open>pool_out\<close> counts the buffers that were
  taken and not yet returned. \<^verbatim>\<open>Get\<close> hands out a pooled buffer as it was returned, or
  a new one when the pool is empty.
\<close>

record sync_Pool =
  pool_free :: "bytes_Buffer list"
  pool_out :: int

definition bufPool_Get :: "sync_Pool \<Rightarrow> bytes_Buffer \<times> sync_Pool" where
  "bufPool_Get p =
     (case pool_free p of
        [] \<Rightarrow> ([], p\<lparr>pool_out := pool_out p + 1\<rparr>)
      | b # bs \<Rightarrow> (b, p\<lparr>pool_free := bs, pool_out := pool_out p + 1\<rparr>))"

definition bufPool_Put :: "bytes_Buffer \<Rightarrow> sync_Pool \<Rightarrow> sync_Pool" where
  "bufPool_Put b p = p\<lparr>pool_free := b # pool_free p, pool_out := pool_out p - 1\<rparr>"

definition Reset :: "bytes_Buffer \<Rightarrow> bytes_Buffer" where
  "Reset b = []"

section \<open>The handler chain\<close>

text \<open>
  \<^verbatim>\<open>compiledRoute.Handle(cx)\<close> is code outside listener.go. One call of it is
  described by what it does to the connection context and the listener, in order, and by
  how it ends: it stores variables, writes into the buffer, calls
  \<^verbatim>\<open>l.pipeConnection(cx)\<close>, and then returns an error (or nil) or panics. All of this
  happens inside the call of line 142, in the handler's goroutine.
\<close>

datatype chain_op =
    SetVarOp string goval
  | WriteBuf "8 word list"
  | Pipe

datatype chain_outcome =
    Returns "goerror option"
  | Panics

datatype chain_run = ChainRun (cr_ops: "chain_op list") (cr_end: chain_outcome)

section \<open>The goroutines\<close>

datatype goroutine =
    GLoop
  | GWatcher
  | GHandler nat
  | GConsumer

text \<open>
  Where the goroutine of \<^verbatim>\<open>loop\<close> stands: about to call Accept (line 91), about to
  call \<^verbatim>\<open>wg.Add(1)\<close> (108), about to spawn the handler (109), about to spawn the
  goroutine of lines 113-116, ranging over the channel (117-119), returned.
\<close>

datatype loop_pc =
    L_accept
  | L_add net_Conn
  | L_go net_Conn
  | L_watch
  | L_drain
  | L_exit

text \<open>The goroutine of lines 113-116: not spawned, in \<^verbatim>\<open>wg.Wait()\<close>, before \<^verbatim>\<open>close\<close>, done.\<close>

datatype watcher_pc =
    W_none
  | W_wait
  | W_close
  | W_exit

text \<open>
  A goroutine of \<^verbatim>\<open>handle\<close>: before line 134, inside the call of line 142, before the
  deferred \<^verbatim>\<open>bufPool.Put\<close> (136), before the deferred \<^verbatim>\<open>wg.Done\<close> (128), before
  the deferred test of line 129, finished.
\<close>

datatype handler_pc =
    H_begin
  | H_chain
  | H_put
  | H_done
  | H_close
  | H_exit

text \<open>
  The locals of one goroutine of \<^verbatim>\<open>handle\<close>: the parameter \<open>h_conn\<close>, \<open>h_err\<close> of
  line 126, \<open>h_cx\<close> of line 138, the run of the chain that line 142 started and what is
  left of it, and the panic that is unwinding the goroutine, if any.
\<close>

record handler =
  h_conn :: net_Conn
  h_pc :: handler_pc
  h_err :: "goerror option"
  h_cx :: "Connection option"
  h_run :: "chain_run option"
  h_ops :: "chain_op list"
  h_panic :: "panic option"

definition new_handler :: "net_Conn \<Rightarrow> handler" where
  "new_handler conn =
     \<lparr>h_conn = conn, h_pc = H_begin, h_err = None, h_cx = None, h_run = None,
      h_ops = [], h_panic = None\<rparr>"

text \<open>
  The process: what the raw listener will still answer, the listener's shared fields,
  the pool, what each goroutine wrote and called, where each goroutine stands, what the
  consumer's calls of \<^verbatim>\<open>Accept\<close> returned, what the loop took out of the channel in
  lines 117-119, and the panic that ended the process, if any.
\<close>

record sys =
  raw :: "accept_result list"
  lis :: listener
  bufPool :: sync_Pool
  trace :: "(goroutine \<times> event) list"
  lpc :: loop_pc
  wpc :: watcher_pc
  handlers :: "handler list"
  accepted :: "(chan_item option \<times> goerror option) list"
  drained :: "chan_item list"
  crashed :: "panic option"

text \<open>Lines 56-68, with the channel's capacity and the pool's content as parameters.\<close>

definition WrapListener :: "nat \<Rightarrow> bytes_Buffer list \<Rightarrow> accept_result list \<Rightarrow> sys" where
  "WrapListener cap free l =
     \<lparr>raw = l,
      lis = \<lparr>l_err = None, connChan = \<lparr>ch_buf = [], ch_cap = cap, ch_closed = False\<rparr>, wg = 0\<rparr>,
      bufPool = \<lparr>pool_free = free, pool_out = 0\<rparr>,
      trace = [], lpc = L_accept, wpc = W_none, handlers = [], accepted = [], drained = [],
      crashed = None\<rparr>"

definition emitted :: "goroutine \<Rightarrow> event list \<Rightarrow> (goroutine \<times> event) list" where
  "emitted g evs = map (Pair g) evs"

text \<open>Lines 89-120, one step of the goroutine of \<^verbatim>\<open>loop\<close>.\<close>

definition loop_step :: "sys \<Rightarrow> sys option" where
  "loop_step s =
     (case lpc s of
        L_accept \<Rightarrow>
          (case raw s of
             [] \<Rightarrow> None
           | r # rs \<Rightarrow>
               (case loop_iter r of
                  (evs, Retry) \<Rightarrow> Some (s\<lparr>raw := rs, trace := trace s @ emitted GLoop evs\<rparr>)
                | (evs, Stop err) \<Rightarrow>
                    Some (s\<lparr>raw := rs, trace := trace s @ emitted GLoop evs,
                            lis := (lis s)\<lparr>l_err := Some err\<rparr>, lpc := L_watch\<rparr>)
                | (evs, Dispatch conn) \<Rightarrow>
                    Some (s\<lparr>raw := rs, trace := trace s @ emitted GLoop evs, lpc := L_add conn\<rparr>)
                | (evs, Crash p) \<Rightarrow>
                    Some (s\<lparr>raw := rs, trace := trace s @ emitted GLoop evs, crashed := Some p\<rparr>)))
      | L_add conn \<Rightarrow> Some (s\<lparr>lis := (lis s)\<lparr>wg := wg (lis s) + 1\<rparr>, lpc := L_go conn\<rparr>)
      | L_go conn \<Rightarrow> Some (s\<lparr>handlers := handlers s @ [new_handler conn], lpc := L_accept\<rparr>)
      | L_watch \<Rightarrow> Some (s\<lparr>wpc := W_wait, lpc := L_drain\<rparr>)
      | L_drain \<Rightarrow>
          (case chan_recv (connChan (lis s)) of
             Recv conn c \<Rightarrow>
               Some (s\<lparr>lis := (lis s)\<lparr>connChan := c\<rparr>,
                       trace := trace s @ [(GLoop, CallClose (cx_conn (item_Connection conn)))],
                       drained := drained s @ [conn]\<rparr>)
           | RecvClosed \<Rightarrow> Some (s\<lparr>lpc := L_exit\<rparr>)
           | RecvBlocked \<Rightarrow> None)
      | L_exit \<Rightarrow> None)"

text \<open>Lines 113-116: \<^verbatim>\<open>Wait\<close> returns when the counter is zero.\<close>

definition watcher_step :: "sys \<Rightarrow> sys option" where
  "watcher_step s =
     (case wpc s of
        W_none \<Rightarrow> None
      | W_wait \<Rightarrow> if wg (lis s) = 0 then Some (s\<lparr>wpc := W_close\<rparr>) else None
      | W_close \<Rightarrow>
          (case chan_close (connChan (lis s)) of
             Inl p \<Rightarrow> Some (s\<lparr>crashed := Some p\<rparr>)
           | Inr c \<Rightarrow> Some (s\<lparr>lis := (lis s)\<lparr>connChan := c\<rparr>, wpc := W_exit\<rparr>))
      | W_exit \<Rightarrow> None)"

text \<open>Lines 144-153, after the chain has returned \<open>err\<close>.\<close>

definition handle_report :: "net_Conn \<Rightarrow> goerror option \<Rightarrow> event list" where
  "handle_report conn err =
     (case err of
        None \<Rightarrow> []
      | Some e \<Rightarrow> if e \<noteq> errHijacked then [LogError ''handling connection'' e] else [])
     @ [LogDebug ''connection stats'' conn]"

text \<open>Lines 129-131.\<close>

definition deferred_close :: "net_Conn \<Rightarrow> goerror option \<Rightarrow> event list" where
  "deferred_close conn err = (if err \<noteq> Some errHijacked then [CallClose conn] else [])"

text \<open>
  Lines 125-154, one step of the \<open>i\<close>-th goroutine of \<^verbatim>\<open>handle\<close>. The deferred calls
  run in reverse order of their \<^verbatim>\<open>defer\<close>: \<^verbatim>\<open>bufPool.Put(buf)\<close>, then \<^verbatim>\<open>wg.Done()\<close>,
  then the test of line 129. A panic inside the chain leaves \<open>h_err\<close> nil, runs the
  deferred calls and ends the process.
\<close>

definition handler_step :: "(Connection \<Rightarrow> chain_run) \<Rightarrow> nat \<Rightarrow> sys \<Rightarrow> sys option" where
  "handler_step route i s =
     (let h = handlers s ! i in
      case h_pc h of
        H_begin \<Rightarrow>
          (let (buf, pool) = bufPool_Get (bufPool s);
               cx = (WrapConnection i (h_conn h) (Reset buf))\<lparr>cx_listener := True\<rparr>
           in Some (s\<lparr>bufPool := pool,
                      handlers := (handlers s)
                        [i := h\<lparr>h_pc := H_chain, h_cx := Some cx, h_run := Some (route cx),
                                h_ops := cr_ops (route cx)\<rparr>]\<rparr>))
      | H_chain \<Rightarrow>
          (case h_cx h of
             None \<Rightarrow> None
           | Some cx \<Rightarrow>
               (case h_ops h of
                  SetVarOp k v # ops \<Rightarrow>
                    Some (s\<lparr>handlers := (handlers s)
                              [i := h\<lparr>h_cx := Some (SetVar k v cx), h_ops := ops\<rparr>]\<rparr>)
                | WriteBuf bs # ops \<Rightarrow>
                    Some (s\<lparr>handlers := (handlers s)
                              [i := h\<lparr>h_cx := Some (cx\<lparr>cx_buf := cx_buf cx @ bs\<rparr>),
                                      h_ops := ops\<rparr>]\<rparr>)
                | Pipe # ops \<Rightarrow>
                    (case pipeConnection (lis s) cx of
                       Blocked \<Rightarrow> None
                     | Panicked p \<Rightarrow>
                         Some (s\<lparr>handlers := (handlers s)
                                   [i := h\<lparr>h_pc := H_put, h_panic := Some p\<rparr>]\<rparr>)
                     | Done (l, e) \<Rightarrow>
                         Some (s\<lparr>lis := l,
                                 handlers := (handlers s)[i := h\<lparr>h_ops := ops\<rparr>]\<rparr>))
                | [] \<Rightarrow>
                    (case h_run h of
                       None \<Rightarrow> None
                     | Some r \<Rightarrow>
                         (case cr_end r of
                            Returns err \<Rightarrow>
                              Some (s\<lparr>trace := trace s
                                        @ emitted (GHandler i) (handle_report (h_conn h) err),
                                      handlers := (handlers s)
                                        [i := h\<lparr>h_err := err, h_pc := H_put\<rparr>]\<rparr>)
                          | Panics \<Rightarrow>
                              Some (s\<lparr>handlers := (handlers s)
                                        [i := h\<lparr>h_pc := H_put,
                                                h_panic := Some HandlerPanic\<rparr>]\<rparr>)))))
      | H_put \<Rightarrow>
          (case h_cx h of
             None \<Rightarrow> None
           | Some cx \<Rightarrow>
               Some (s\<lparr>bufPool := bufPool_Put (cx_buf cx) (bufPool s),
                       handlers := (handlers s)[i := h\<lparr>h_pc := H_done\<rparr>]\<rparr>))
      | H_done \<Rightarrow>
          (if wg (lis s) - 1 < 0
           then Some (s\<lparr>handlers := (handlers s)[i := h\<lparr>h_pc := H_exit\<rparr>],
                        crashed := Some NegativeWaitGroup\<rparr>)
           else Some (s\<lparr>lis := (lis s)\<lparr>wg := wg (lis s) - 1\<rparr>,
                        handlers := (handlers s)[i := h\<lparr>h_pc := H_close\<rparr>]\<rparr>))
      | H_close \<Rightarrow>
          Some (s\<lparr>trace := trace s @ emitted (GHandler i) (deferred_close (h_conn h) (h_err h)),
                  handlers := (handlers s)[i := h\<lparr>h_pc := H_exit\<rparr>],
                  crashed := h_panic h\<rparr>)
      | H_exit \<Rightarrow> None)"

text \<open>A call of \<^verbatim>\<open>Accept\<close> by the consumer of the wrapped listener.\<close>

definition consumer_step :: "sys \<Rightarrow> sys option" where
  "consumer_step s =
     (case Accept (lis s) of
        Blocked \<Rightarrow> None
      | Panicked p \<Rightarrow> Some (s\<lparr>crashed := Some p\<rparr>)
      | Done (r, l) \<Rightarrow> Some (s\<lparr>lis := l, accepted := accepted s @ [r]\<rparr>))"

text \<open>
  One step of the process: the scheduler picks a goroutine; \<open>None\<close> when that goroutine
  is blocked, does not exist or has finished, or when a panic has ended the process.
\<close>

definition step :: "(Connection \<Rightarrow> chain_run) \<Rightarrow> goroutine \<Rightarrow> sys \<Rightarrow> sys option" where
  "step route g s =
     (if crashed s \<noteq> None then None
      else case g of
        GLoop \<Rightarrow> loop_step s
      | GWatcher \<Rightarrow> watcher_step s
      | GHandler i \<Rightarrow> if i < length (handlers s) then handler_step route i s else None
      | GConsumer \<Rightarrow> consumer_step s)"

fun run :: "(Connection \<Rightarrow> chain_run) \<Rightarrow> goroutine list \<Rightarrow> sys \<Rightarrow> sys option" where
  "run route [] s = Some s"
| "run route (g # gs) s = (case step route g s of None \<Rightarrow> None | Some s' \<Rightarrow> run route gs s')"


section \<open>Predicates on the state of the process\<close>

text \<open>The accept loop has left its \<^verbatim>\<open>for\<close> loop (the \<^verbatim>\<open>break\<close> of line 98).\<close>

fun accept_stopped :: "loop_pc \<Rightarrow> bool" where
  "accept_stopped L_watch = True"
| "accept_stopped L_drain = True"
| "accept_stopped L_exit = True"
| "accept_stopped pc = False"

text \<open>The loop ranges over the channel (lines 117-119) or has returned.\<close>

fun draining :: "loop_pc \<Rightarrow> bool" where
  "draining L_drain = True"
| "draining L_exit = True"
| "draining pc = False"

text \<open>The loop has called \<^verbatim>\<open>wg.Add(1)\<close> for a handler that it has not spawned yet.\<close>

fun spawning :: "loop_pc \<Rightarrow> int" where
  "spawning (L_go conn) = 1"
| "spawning pc = 0"

text \<open>A handler goroutine that has not yet called \<^verbatim>\<open>wg.Done()\<close>.\<close>

definition pre_done :: "handler \<Rightarrow> bool" where
  "pre_done h = (h_pc h = H_begin \<or> h_pc h = H_chain \<or> h_pc h = H_put \<or> h_pc h = H_done)"

text \<open>A handler goroutine between \<^verbatim>\<open>bufPool.Get()\<close> and \<^verbatim>\<open>bufPool.Put(buf)\<close>.\<close>

definition holding :: "handler \<Rightarrow> bool" where
  "holding h = (h_pc h = H_chain \<or> h_pc h = H_put)"

text \<open>The chain of a handler goroutine has not returned yet.\<close>

fun before_return :: "handler_pc \<Rightarrow> bool" where
  "before_return H_begin = True"
| "before_return H_chain = True"
| "before_return pc = False"

text \<open>Not one of the panics of a misused channel or wait-group.\<close>

fun no_sync_panic :: "panic option \<Rightarrow> bool" where
  "no_sync_panic (Some SendOnClosedChannel) = False"
| "no_sync_panic (Some NegativeWaitGroup) = False"
| "no_sync_panic (Some CloseOfClosedChannel) = False"
| "no_sync_panic p = True"

text \<open>The connections that the consumer's calls of \<^verbatim>\<open>Accept\<close> returned.\<close>

fun delivered_of :: "(chan_item option \<times> goerror option) list \<Rightarrow> chan_item list" where
  "delivered_of [] = []"
| "delivered_of ((Some v, e) # rs) = v # delivered_of rs"
| "delivered_of ((None, e) # rs) = delivered_of rs"

text \<open>
  How many of the items are the connection context of the \<open>i\<close>-th handler, wrapping the
  connection \<open>c\<close>.
\<close>

definition count_id :: "nat \<Rightarrow> net_Conn \<Rightarrow> chan_item list \<Rightarrow> nat" where
  "count_id i c vs =
     length (filter (\<lambda>v. cx_id (item_Connection v) = i \<and> cx_conn (item_Connection v) = c) vs)"

text \<open>
  How often the connection of the \<open>i\<close>-th handler was sent on the channel: each item sent
  is still queued, or was returned by \<^verbatim>\<open>Accept\<close>, or was taken and closed by the loop.
\<close>

definition sent_count :: "nat \<Rightarrow> net_Conn \<Rightarrow> sys \<Rightarrow> nat" where
  "sent_count i c s =
     count_id i c (ch_buf (connChan (lis s))) + count_id i c (delivered_of (accepted s))
     + count_id i c (drained s)"

fun npipes :: "chain_run option \<Rightarrow> nat" where
  "npipes None = 0"
| "npipes (Some r) = count_list (cr_ops r) Pipe"



subsection \<open>Invariants\<close>

text \<open>
  The counters and the goroutines agree: the wait-group counts the handlers that have not
  called \<^verbatim>\<open>wg.Done()\<close> and the one the loop is about to spawn; the pool's count is the
  number of handlers that hold a buffer; the goroutine of lines 113-116 exists exactly
  when the loop ranges over the channel or has returned; it passes \<^verbatim>\<open>wg.Wait()\<close> only at
  zero; the channel is closed exactly when that goroutine has finished; and nothing has
  panicked on a channel or on the wait-group.
\<close>

definition inv_sync :: "sys \<Rightarrow> bool" where
  "inv_sync s =
     (wg (lis s) = int (length (filter pre_done (handlers s))) + spawning (lpc s)
      \<and> pool_out (bufPool s) = int (length (filter holding (handlers s)))
      \<and> (wpc s = W_none) = (\<not> draining (lpc s))
      \<and> (wpc s = W_close \<or> wpc s = W_exit \<longrightarrow> wg (lis s) = 0)
      \<and> ch_closed (connChan (lis s)) = (wpc s = W_exit)
      \<and> no_sync_panic (crashed s)
      \<and> (\<forall>h \<in> set (handlers s). no_sync_panic (h_panic h)))"

text \<open>
  The locals of the \<open>i\<close>-th handler goroutine fit its program point: the context exists
  from line 138 on, has the identity \<open>i\<close> and wraps the goroutine's connection; \<open>err\<close> is nil
  until the chain returns and is then what the run of the chain returned; a panic leaves
  \<open>err\<close> nil.
\<close>

definition handler_local :: "nat \<Rightarrow> handler \<Rightarrow> bool" where
  "handler_local i h =
     ((h_pc h = H_begin \<longrightarrow> h_cx h = None \<and> h_run h = None \<and> h_ops h = [])
      \<and> (h_pc h \<noteq> H_begin \<longrightarrow>
            (\<exists>cx. h_cx h = Some cx \<and> cx_id cx = i \<and> cx_conn cx = h_conn h) \<and> h_run h \<noteq> None)
      \<and> (before_return (h_pc h) \<longrightarrow> h_panic h = None \<and> h_err h = None)
      \<and> (\<not> before_return (h_pc h) \<and> h_panic h = None \<longrightarrow>
            h_ops h = [] \<and> (\<exists>r. h_run h = Some r \<and> cr_end r = Returns (h_err h)))
      \<and> (h_panic h \<noteq> None \<longrightarrow> h_err h = None))"

text \<open>
  What the \<open>i\<close>-th handler goroutine has written so far: it has closed its connection
  exactly when it has finished with an \<open>err\<close> other than the hijacked marker; an error it
  got from the chain, other than the marker, is in the log; the marker never is.
\<close>

definition handler_trace :: "(goroutine \<times> event) list \<Rightarrow> nat \<Rightarrow> handler \<Rightarrow> bool" where
  "handler_trace tr i h =
     (((GHandler i, CallClose (h_conn h)) \<in> set tr)
        = (h_pc h = H_exit \<and> h_err h \<noteq> Some errHijacked)
      \<and> (\<forall>e. \<not> before_return (h_pc h) \<and> h_err h = Some e \<and> e \<noteq> errHijacked \<longrightarrow>
             (GHandler i, LogError ''handling connection'' e) \<in> set tr)
      \<and> (GHandler i, LogError ''handling connection'' errHijacked) \<notin> set tr)"

text \<open>
  Every handler goroutine satisfies both, and its connection was sent as often as its chain
  has piped so far.
\<close>

definition inv_handlers :: "sys \<Rightarrow> bool" where
  "inv_handlers s =
     (\<forall>i < length (handlers s).
        handler_local i (handlers s ! i)
        \<and> handler_trace (trace s) i (handlers s ! i)
        \<and> sent_count i (h_conn (handlers s ! i)) s + count_list (h_ops (handlers s ! i)) Pipe
            = npipes (h_run (handlers s ! i)))"

text \<open>Nothing was written or sent in the name of a handler that is not spawned yet.\<close>

definition inv_fresh :: "sys \<Rightarrow> bool" where
  "inv_fresh s =
     ((\<forall>j e. (GHandler j, e) \<in> set (trace s) \<longrightarrow> j < length (handlers s))
      \<and> (\<forall>j c. length (handlers s) \<le> j \<longrightarrow> sent_count j c s = 0))"

definition inv :: "sys \<Rightarrow> bool" where
  "inv s = (inv_sync s \<and> inv_handlers s \<and> inv_fresh s)"

section \<open>Concrete inputs\<close>

definition ex_states :: "tls_ConnectionState option list" where
  "ex_states = [Some (TlsState 771 True 4865 ''http/1.1'' ''a.example''),
                Some (TlsState 772 True 4866 ''h2'' ''b.example'')]"

definition ex_cx :: Connection where
  "ex_cx = SetVar ''tls_connection_states'' (VConnectionStates ex_states)
             (WrapConnection 0 (OtherConn 5) [])"

definition ex_listener :: listener where
  "ex_listener = \<lparr>l_err = Some (GoError 7 ''use of closed network connection'' None),
                  connChan = \<lparr>ch_buf = [], ch_cap = 2, ch_closed = False\<rparr>, wg = 1\<rparr>"

text \<open>
  Two runs of the process. In the first, the raw listener yields two connections; the
  chain returns, for the first, an error that has the message of the hijacked marker and
  another identity, and for the second it pipes the connection and returns the marker.
\<close>

definition ex_fatal :: goerror where
  "ex_fatal = GoError 7 ''use of closed network connection'' None"

definition ex_temporary :: goerror where
  "ex_temporary = GoError 8 ''accept: too many open files'' (Some True)"

definition ex_lookalike :: goerror where
  "ex_lookalike = GoError 5 ''hijacked connection'' None"

definition ex_route :: "Connection \<Rightarrow> chain_run" where
  "ex_route cx = (if cx_id cx = 0 then ChainRun [] (Returns (Some ex_lookalike))
                  else ChainRun [Pipe] (Returns (Some errHijacked)))"




definition ex_cx0 :: Connection where
  "ex_cx0 = \<lparr>cx_id = 0, cx_conn = OtherConn 1, cx_buf = [], cx_vars = [], cx_listener = True\<rparr>"



text \<open>
  In the second, the raw listener yields one connection and then fails for good; the chain
  pipes the connection and returns the marker after the loop has stopped accepting; the
  loop takes the connection out of the channel and closes it, the channel is closed, and
  the consumer's \<^verbatim>\<open>Accept\<close> gets the terminal error.
\<close>

definition ex_pipe_route :: "Connection \<Rightarrow> chain_run" where
  "ex_pipe_route cx = ChainRun [Pipe] (Returns (Some errHijacked))"

definition ex_drain_sched :: "goroutine list" where
  "ex_drain_sched = [GLoop, GLoop, GLoop, GLoop, GLoop,
               GHandler 0, GHandler 0, GHandler 0, GHandler 0, GHandler 0, GHandler 0,
               GLoop, GWatcher, GWatcher, GLoop, GConsumer]"

definition ex_drain_start :: sys where
  "ex_drain_start = WrapListener 1 [] [Accepted (OtherConn 1), AcceptFailed ex_fatal]"

definition ex_drain_final :: sys where
  "ex_drain_final =
     \<lparr>raw = [],
      lis = \<lparr>l_err = Some ex_fatal,
             connChan = \<lparr>ch_buf = [], ch_cap = 1, ch_closed = True\<rparr>, wg = 0\<rparr>,
      bufPool = \<lparr>pool_free = [Nil], pool_out = 0\<rparr>,
      trace = [(GHandler 0, LogDebug ''connection stats'' (OtherConn 1)),
               (GLoop, CallClose (OtherConn 1))],
      lpc = L_exit, wpc = W_exit,
      handlers =
        [\<lparr>h_conn = OtherConn 1, h_pc = H_exit, h_err = Some errHijacked,
          h_cx = Some ex_cx0, h_run = Some (ChainRun [Pipe] (Returns (Some errHijacked))),
          h_ops = [], h_panic = None\<rparr>],
      accepted = [(None, Some ex_fatal)], drained = [PlainItem ex_cx0], crashed = None\<rparr>"

section \<open>The keepalive configurator: properties\<close>

lemma keepalive_events_no_capability_call:
  "setKeepAliveWorkarround c = Inr (evs, err) \<Longrightarrow> e \<in> set evs \<Longrightarrow> \<not> is_capability_call e"
  by (auto simp: setKeepAliveWorkarround_def split: net_Conn.splits option.splits)

lemma loop_iter_Crash: "loop_iter r = (evs, Crash p) \<Longrightarrow> p = TypeAssertionFailed"
  by (auto simp: loop_iter_def setKeepAliveWorkarround_def
      split: accept_result.splits if_splits net_Conn.splits option.splits sum.splits prod.splits)

text \<open>
  C8, as the spec states it, fails: when the ioctl itself fails on a \<^verbatim>\<open>*net.TCPConn\<close>, the
  policy is not applied and nothing is logged at warning level; the failure is printed with
  \<^verbatim>\<open>fmt.Println\<close> and the connection is dispatched.
\<close>

theorem keepalive_ioctl_failure_counterexample:
  "implements_tcpConnection (TCPConn 1 (TcpSocket None None (Some (GoError 9 ''WSAENOTSOCK'' None))))
   \<and> loop_iter (Accepted (TCPConn 1 (TcpSocket None None (Some (GoError 9 ''WSAENOTSOCK'' None)))))
     = ([CallWSAIoctl 1 (TCPKeepalive 1 120000 15000),
         Println ''WSAIoctl error:'' (GoError 9 ''WSAENOTSOCK'' None)],
        Dispatch (TCPConn 1 (TcpSocket None None (Some (GoError 9 ''WSAENOTSOCK'' None)))))
   \<and> LogWarn ''unable to set keepalive for new connection:'' (GoError 9 ''WSAENOTSOCK'' None)
       \<notin> set (fst (loop_iter
             (Accepted (TCPConn 1 (TcpSocket None None (Some (GoError 9 ''WSAENOTSOCK'' None)))))))"
  by (simp add: loop_iter_def setKeepAliveWorkarround_def keepaliveParams_def)

text \<open>
  C8, amended: for every accepted connection that is a \<^verbatim>\<open>*net.TCPConn\<close>, the loop always
  dispatches the connection: it counts it in the wait-group, spawns its handler goroutine
  and is again about to call Accept (no failure of the configurator is fatal); when
  neither \<^verbatim>\<open>SyscallConn\<close> nor \<^verbatim>\<open>Control\<close> fails, the ioctl is called with the fixed policy
  on = 1, idle time 120000 ms (120 s), probe interval 15000 ms (15 s); an error of
  \<^verbatim>\<open>SyscallConn\<close> or \<^verbatim>\<open>Control\<close>, and nothing else, is logged at warning level; a failure
  of the ioctl itself, and nothing else, is printed to standard output.
\<close>

theorem keepalive_policy_on_TCPConn:
  "snd (loop_iter (Accepted (TCPConn n sock))) = Dispatch (TCPConn n sock)
   \<and> (\<forall>s rs. lpc s = L_accept \<and> raw s = Accepted (TCPConn n sock) # rs \<and> crashed s = None \<longrightarrow>
         (\<exists>s'. run route [GLoop, GLoop, GLoop] s = Some s'
               \<and> handlers s' = handlers s @ [new_handler (TCPConn n sock)]
               \<and> wg (lis s') = wg (lis s) + 1 \<and> lpc s' = L_accept \<and> crashed s' = None))
   \<and> (syscallconn_err sock = None \<and> control_err sock = None \<longrightarrow>
        CallWSAIoctl n (TCPKeepalive 1 120000 15000)
          \<in> set (fst (loop_iter (Accepted (TCPConn n sock)))))
   \<and> (LogWarn m e \<in> set (fst (loop_iter (Accepted (TCPConn n sock)))) \<longleftrightarrow>
        m = ''unable to set keepalive for new connection:''
        \<and> (syscallconn_err sock = Some e
           \<or> syscallconn_err sock = None \<and> control_err sock = Some e))
   \<and> (Println m e \<in> set (fst (loop_iter (Accepted (TCPConn n sock)))) \<longleftrightarrow>
        m = ''WSAIoctl error:'' \<and> syscallconn_err sock = None \<and> control_err sock = None
        \<and> wsaioctl_err sock = Some e)
   \<and> OnOff keepaliveParams = 1
   \<and> unat (Time keepaliveParams) = 120 * 1000
   \<and> unat (Interval keepaliveParams) = 15 * 1000"
proof -
  have d: "snd (loop_iter (Accepted (TCPConn n sock))) = Dispatch (TCPConn n sock)"
    by (auto simp: loop_iter_def setKeepAliveWorkarround_def split: option.splits)
  then obtain evs where it: "loop_iter (Accepted (TCPConn n sock)) = (evs, Dispatch (TCPConn n sock))"
    by (cases "loop_iter (Accepted (TCPConn n sock))") simp
  have r: "\<exists>s'. run route [GLoop, GLoop, GLoop] s = Some s'
               \<and> handlers s' = handlers s @ [new_handler (TCPConn n sock)]
               \<and> wg (lis s') = wg (lis s) + 1 \<and> lpc s' = L_accept \<and> crashed s' = None"
    if "lpc s = L_accept" "raw s = Accepted (TCPConn n sock) # rs" "crashed s = None" for s rs
    using that it by (simp add: step_def loop_step_def)
  have rest: "(syscallconn_err sock = None \<and> control_err sock = None \<longrightarrow>
        CallWSAIoctl n (TCPKeepalive 1 120000 15000)
          \<in> set (fst (loop_iter (Accepted (TCPConn n sock)))))
   \<and> (LogWarn m e \<in> set (fst (loop_iter (Accepted (TCPConn n sock)))) \<longleftrightarrow>
        m = ''unable to set keepalive for new connection:''
        \<and> (syscallconn_err sock = Some e
           \<or> syscallconn_err sock = None \<and> control_err sock = Some e))
   \<and> (Println m e \<in> set (fst (loop_iter (Accepted (TCPConn n sock)))) \<longleftrightarrow>
        m = ''WSAIoctl error:'' \<and> syscallconn_err sock = None \<and> control_err sock = None
        \<and> wsaioctl_err sock = Some e)
   \<and> OnOff keepaliveParams = 1
   \<and> unat (Time keepaliveParams) = 120 * 1000
   \<and> unat (Interval keepaliveParams) = 15 * 1000"
    by (auto simp: loop_iter_def setKeepAliveWorkarround_def keepaliveParams_def
        split: option.splits)
  from d r rest show ?thesis by blast
qed

theorem keepalive_policy_on_TCPConn_witness:
  "snd (loop_iter (Accepted (TCPConn 4 (TcpSocket None None None))))
     = Dispatch (TCPConn 4 (TcpSocket None None None))
   \<and> CallWSAIoctl 4 (TCPKeepalive 1 120000 15000)
       \<in> set (fst (loop_iter (Accepted (TCPConn 4 (TcpSocket None None None)))))
   \<and> LogWarn ''unable to set keepalive for new connection:'' ex_fatal
       \<in> set (fst (loop_iter (Accepted (TCPConn 4 (TcpSocket None (Some ex_fatal) None)))))"
  using keepalive_policy_on_TCPConn [of 4 "TcpSocket None None None"]
    keepalive_policy_on_TCPConn [of 4 "TcpSocket None (Some ex_fatal) None"
      _ "''unable to set keepalive for new connection:''" ex_fatal]
  by simp

text \<open>
  C10: a connection that has the two methods of \<^verbatim>\<open>tcpConnection\<close> and is not a
  \<^verbatim>\<open>*net.TCPConn\<close> makes \<^verbatim>\<open>setKeepAliveWorkarround\<close> panic on the type assertion of
  line 193 instead of returning an error; the panic ends the accept loop and with it the
  process, before any handler is spawned for the connection; and no run of the
  configurator ever calls \<^verbatim>\<open>SetKeepAlive\<close> or \<^verbatim>\<open>SetKeepAlivePeriod\<close>.
\<close>

theorem keepalive_panics_unless_TCPConn:
  assumes "implements_tcpConnection conn" and "\<forall>n sock. conn \<noteq> TCPConn n sock"
  shows "setKeepAliveWorkarround conn = Inl TypeAssertionFailed
       \<and> loop_iter (Accepted conn) = ([], Crash TypeAssertionFailed)
       \<and> (\<forall>s rs. lpc s = L_accept \<and> raw s = Accepted conn # rs \<and> crashed s = None \<longrightarrow>
            step route GLoop s
              = Some (s\<lparr>raw := rs, crashed := Some TypeAssertionFailed\<rparr>)
            \<and> (\<forall>g. step route g
                     (s\<lparr>raw := rs, crashed := Some TypeAssertionFailed\<rparr>)
                   = None))
       \<and> (\<forall>c evs err e. setKeepAliveWorkarround c = Inr (evs, err) \<and> e \<in> set evs
             \<longrightarrow> \<not> is_capability_call e)"
proof -
  from assms obtain n where c: "conn = KeepAliveConn n"
    by (cases conn) auto
  have a: "setKeepAliveWorkarround conn = Inl TypeAssertionFailed"
    by (simp add: c setKeepAliveWorkarround_def)
  have b: "loop_iter (Accepted conn) = ([], Crash TypeAssertionFailed)"
    by (simp add: c loop_iter_def setKeepAliveWorkarround_def)
  have d: "step route GLoop s
             = Some (s\<lparr>raw := rs, crashed := Some TypeAssertionFailed\<rparr>)"
    if "lpc s = L_accept" "raw s = Accepted conn # rs" "crashed s = None" for s rs
    using that by (simp add: step_def loop_step_def b emitted_def)
  show ?thesis
    using a b d keepalive_events_no_capability_call by (auto simp: step_def)
qed

theorem keepalive_panics_unless_TCPConn_witness:
  "implements_tcpConnection (KeepAliveConn 3)
   \<and> setKeepAliveWorkarround (KeepAliveConn 3) = Inl TypeAssertionFailed
   \<and> step (\<lambda>cx. ChainRun [] (Returns None)) GLoop
         (WrapListener 1 [] [Accepted (KeepAliveConn 3)])
       = Some ((WrapListener 1 [] [Accepted (KeepAliveConn 3)])
                 \<lparr>raw := [], crashed := Some TypeAssertionFailed\<rparr>)"
proof -
  have h1: "implements_tcpConnection (KeepAliveConn 3)" by simp
  have h2: "\<forall>n sock. KeepAliveConn 3 \<noteq> TCPConn n sock" by simp
  have s: "lpc (WrapListener 1 [] [Accepted (KeepAliveConn 3)]) = L_accept
      \<and> raw (WrapListener 1 [] [Accepted (KeepAliveConn 3)]) = Accepted (KeepAliveConn 3) # []
      \<and> crashed (WrapListener 1 [] [Accepted (KeepAliveConn 3)]) = None"
    by (simp add: WrapListener_def)
  from keepalive_panics_unless_TCPConn [OF h1 h2, of "\<lambda>cx. ChainRun [] (Returns None)"] s h1
  show ?thesis by (simp add: WrapListener_def)
qed

section \<open>The pipe operation and Accept: properties\<close>

text \<open>
  C2: on an open channel with room, \<^verbatim>\<open>pipeConnection\<close> returns the hijacked marker after
  sending one value: if the variable \<^verbatim>\<open>tls_connection_states\<close> holds a non-empty sequence
  of states, the connection wrapped in a \<^verbatim>\<open>tlsConnection\<close> that carries the last element
  of the sequence, so that \<^verbatim>\<open>ConnectionState\<close> of the wrapper is that last snapshot; if
  the variable is absent or the sequence is empty, the connection itself. Whenever it
  returns, it returns the hijacked marker, and the channel was open and had room.
\<close>

theorem pipeConnection_sends_last_state:
  "(GetVar conn ''tls_connection_states'' = VConnectionStates ss \<and> ss \<noteq> []
      \<and> \<not> ch_closed (connChan l) \<and> length (ch_buf (connChan l)) < ch_cap (connChan l) \<longrightarrow>
      pipeConnection l conn
        = Done (l\<lparr>connChan := (connChan l)
                    \<lparr>ch_buf := ch_buf (connChan l)
                               @ [TlsItem (TlsConnection conn (last ss))]\<rparr>\<rparr>, errHijacked)
      \<and> (\<forall>st. last ss = Some st \<longrightarrow>
            ConnectionState (TlsConnection conn (last ss)) = Inr st))
   \<and> ((GetVar conn ''tls_connection_states'' = VNil
        \<or> GetVar conn ''tls_connection_states'' = VConnectionStates [])
      \<and> \<not> ch_closed (connChan l) \<and> length (ch_buf (connChan l)) < ch_cap (connChan l) \<longrightarrow>
      pipeConnection l conn
        = Done (l\<lparr>connChan := (connChan l)\<lparr>ch_buf := ch_buf (connChan l) @ [PlainItem conn]\<rparr>\<rparr>,
                errHijacked))
   \<and> (\<forall>l' e. pipeConnection l conn = Done (l', e) \<longrightarrow>
         e = errHijacked \<and> \<not> ch_closed (connChan l)
         \<and> length (ch_buf (connChan l)) < ch_cap (connChan l))"
  by (auto simp: pipeConnection_def connectionStates_of_def pipe_item_def chan_send_def
        ConnectionState_def last_conv_nth
      split: goval.splits sum.splits blocking.splits if_splits)

theorem pipeConnection_sends_last_state_witness:
  "pipeConnection ex_listener ex_cx
     = Done (ex_listener\<lparr>connChan := \<lparr>ch_buf = [TlsItem (TlsConnection ex_cx (ex_states ! 1))],
                                       ch_cap = 2, ch_closed = False\<rparr>\<rparr>, errHijacked)
   \<and> ConnectionState (TlsConnection ex_cx (ex_states ! 1))
       = Inr (TlsState 772 True 4866 ''h2'' ''b.example'')"
proof -
  have g: "GetVar ex_cx ''tls_connection_states'' = VConnectionStates ex_states"
    by (simp add: ex_cx_def GetVar_def SetVar_def WrapConnection_def)
  have l: "last ex_states = ex_states ! 1" "ex_states \<noteq> []"
    "ex_states ! 1 = Some (TlsState 772 True 4866 ''h2'' ''b.example'')"
    by (simp_all add: ex_states_def)
  have c: "\<not> ch_closed (connChan ex_listener)"
    "length (ch_buf (connChan ex_listener)) < ch_cap (connChan ex_listener)"
    "connChan ex_listener = \<lparr>ch_buf = [], ch_cap = 2, ch_closed = False\<rparr>"
    by (simp_all add: ex_listener_def)
  from pipeConnection_sends_last_state [of ex_cx ex_states ex_listener] g l c
  show ?thesis by simp
qed

text \<open>
  C9: a non-nil value of \<^verbatim>\<open>tls_connection_states\<close> that is not a
  \<^verbatim>\<open>[]*tls.ConnectionState\<close> makes \<^verbatim>\<open>pipeConnection\<close> panic on the type assertion of
  line 169; it neither returns an error nor treats the variable as absent.
\<close>

theorem pipeConnection_panics_on_other_type:
  assumes "GetVar conn ''tls_connection_states'' = VOther t"
  shows "pipeConnection l conn = Panicked TypeAssertionFailed"
  using assms by (simp add: pipeConnection_def connectionStates_of_def)

theorem pipeConnection_panics_on_other_type_witness:
  "GetVar (SetVar ''tls_connection_states'' (VOther ''string'') (WrapConnection 0 (OtherConn 5) []))
      ''tls_connection_states'' = VOther ''string''
   \<and> pipeConnection ex_listener
        (SetVar ''tls_connection_states'' (VOther ''string'') (WrapConnection 0 (OtherConn 5) []))
       = Panicked TypeAssertionFailed"
proof -
  have g: "GetVar (SetVar ''tls_connection_states'' (VOther ''string'')
              (WrapConnection 0 (OtherConn 5) [])) ''tls_connection_states'' = VOther ''string''"
    by (simp add: GetVar_def SetVar_def WrapConnection_def)
  from pipeConnection_panics_on_other_type [OF g] g show ?thesis by simp
qed

text \<open>
  C4: \<^verbatim>\<open>Accept\<close> returns the oldest value of the channel with a nil error and takes it
  out of the channel; on a closed and empty channel it returns a nil connection and the
  error that the accept loop recorded in \<^verbatim>\<open>l.err\<close> (nil when none was recorded); on an
  open and empty channel it blocks.
\<close>

theorem Accept_returns_item_or_terminal_error:
  "(\<forall>v vs. ch_buf (connChan l) = v # vs \<longrightarrow>
      Accept l = Done ((Some v, None), l\<lparr>connChan := (connChan l)\<lparr>ch_buf := vs\<rparr>\<rparr>))
   \<and> (ch_buf (connChan l) = [] \<and> ch_closed (connChan l) \<longrightarrow>
        Accept l = Done ((None, l_err l), l))
   \<and> (ch_buf (connChan l) = [] \<and> \<not> ch_closed (connChan l) \<longrightarrow> Accept l = Blocked)"
  by (simp add: Accept_def chan_recv_def)

theorem Accept_returns_item_or_terminal_error_witness:
  "Accept (ex_listener\<lparr>connChan := \<lparr>ch_buf = [PlainItem ex_cx], ch_cap = 2, ch_closed = True\<rparr>\<rparr>)
     = Done ((Some (PlainItem ex_cx), None),
             ex_listener\<lparr>connChan := \<lparr>ch_buf = [], ch_cap = 2, ch_closed = True\<rparr>\<rparr>)
   \<and> Accept (ex_listener\<lparr>connChan := \<lparr>ch_buf = [], ch_cap = 2, ch_closed = True\<rparr>\<rparr>)
     = Done ((None, Some (GoError 7 ''use of closed network connection'' None)),
             ex_listener\<lparr>connChan := \<lparr>ch_buf = [], ch_cap = 2, ch_closed = True\<rparr>\<rparr>)"
  using Accept_returns_item_or_terminal_error
          [of "ex_listener\<lparr>connChan := \<lparr>ch_buf = [PlainItem ex_cx], ch_cap = 2, ch_closed = True\<rparr>\<rparr>"]
        Accept_returns_item_or_terminal_error
          [of "ex_listener\<lparr>connChan := \<lparr>ch_buf = [], ch_cap = 2, ch_closed = True\<rparr>\<rparr>"]
  by (simp add: ex_listener_def)

section \<open>The steps of each goroutine, by cases\<close>

lemma item_Connection_pipe_item [simp]: "item_Connection (pipe_item cx ss) = cx"
  by (simp add: pipe_item_def)

lemma pipeConnection_Panicked:
  "pipeConnection l cx = Panicked p \<Longrightarrow>
     p = TypeAssertionFailed \<or> p = SendOnClosedChannel \<and> ch_closed (connChan l)"
  by (auto simp: pipeConnection_def connectionStates_of_def chan_send_def
      split: sum.splits goval.splits blocking.splits if_splits)

lemma pipeConnection_Done:
  "pipeConnection l cx = Done (l', e) \<Longrightarrow>
     e = errHijacked \<and> \<not> ch_closed (connChan l)
     \<and> (\<exists>ss. l' = l\<lparr>connChan := (connChan l)\<lparr>ch_buf := ch_buf (connChan l)
                                                   @ [pipe_item cx ss]\<rparr>\<rparr>)"
  by (auto simp: pipeConnection_def chan_send_def
      split: sum.splits blocking.splits if_splits)

lemma loop_stepE:
  assumes "loop_step s = Some s'"
  obtains
    (retry) r rs evs where "lpc s = L_accept" "raw s = r # rs" "loop_iter r = (evs, Retry)"
      "s' = s\<lparr>raw := rs, trace := trace s @ emitted GLoop evs\<rparr>"
  | (stop) r rs evs err where "lpc s = L_accept" "raw s = r # rs" "loop_iter r = (evs, Stop err)"
      "s' = s\<lparr>raw := rs, trace := trace s @ emitted GLoop evs,
               lis := (lis s)\<lparr>l_err := Some err\<rparr>, lpc := L_watch\<rparr>"
  | (dispatch) r rs evs conn where "lpc s = L_accept" "raw s = r # rs"
      "loop_iter r = (evs, Dispatch conn)"
      "s' = s\<lparr>raw := rs, trace := trace s @ emitted GLoop evs, lpc := L_add conn\<rparr>"
  | (crash) r rs evs where "lpc s = L_accept" "raw s = r # rs"
      "loop_iter r = (evs, Crash TypeAssertionFailed)"
      "s' = s\<lparr>raw := rs, trace := trace s @ emitted GLoop evs,
               crashed := Some TypeAssertionFailed\<rparr>"
  | (add) conn where "lpc s = L_add conn"
      "s' = s\<lparr>lis := (lis s)\<lparr>wg := wg (lis s) + 1\<rparr>, lpc := L_go conn\<rparr>"
  | (go) conn where "lpc s = L_go conn"
      "s' = s\<lparr>handlers := handlers s @ [new_handler conn], lpc := L_accept\<rparr>"
  | (watch) "lpc s = L_watch" "s' = s\<lparr>wpc := W_wait, lpc := L_drain\<rparr>"
  | (drain) v vs where "lpc s = L_drain" "ch_buf (connChan (lis s)) = v # vs"
      "s' = s\<lparr>lis := (lis s)\<lparr>connChan := (connChan (lis s))\<lparr>ch_buf := vs\<rparr>\<rparr>,
               trace := trace s @ [(GLoop, CallClose (cx_conn (item_Connection v)))],
               drained := drained s @ [v]\<rparr>"
  | (exit) "lpc s = L_drain" "ch_buf (connChan (lis s)) = []" "ch_closed (connChan (lis s))"
      "s' = s\<lparr>lpc := L_exit\<rparr>"
proof (cases "lpc s")
  case L_accept
  then obtain r rs where r: "raw s = r # rs"
    using assms by (cases "raw s") (auto simp: loop_step_def)
  obtain evs nx where it: "loop_iter r = (evs, nx)"
    by (cases "loop_iter r")
  show ?thesis
  proof (cases nx)
    case Retry
    with assms L_accept r it retry show ?thesis by (auto simp: loop_step_def)
  next
    case (Stop err)
    with assms L_accept r it stop show ?thesis by (auto simp: loop_step_def)
  next
    case (Dispatch conn)
    with assms L_accept r it dispatch show ?thesis by (auto simp: loop_step_def)
  next
    case (Crash p)
    with it have "p = TypeAssertionFailed" by (auto dest: loop_iter_Crash)
    with Crash assms L_accept r it crash show ?thesis by (auto simp: loop_step_def)
  qed
next
  case (L_add conn)
  with assms add show ?thesis by (auto simp: loop_step_def)
next
  case (L_go conn)
  with assms go show ?thesis by (auto simp: loop_step_def)
next
  case L_watch
  with assms watch show ?thesis by (auto simp: loop_step_def)
next
  case L_drain
  show ?thesis
  proof (cases "ch_buf (connChan (lis s))")
    case Nil
    with assms L_drain exit show ?thesis
      by (auto simp: loop_step_def chan_recv_def split: if_splits)
  next
    case (Cons v vs)
    with assms L_drain drain show ?thesis
      by (auto simp: loop_step_def chan_recv_def)
  qed
next
  case L_exit
  with assms show ?thesis by (simp add: loop_step_def)
qed

lemma watcher_stepE:
  assumes "watcher_step s = Some s'"
  obtains
    (wait) "wpc s = W_wait" "wg (lis s) = 0" "s' = s\<lparr>wpc := W_close\<rparr>"
  | (close) "wpc s = W_close" "\<not> ch_closed (connChan (lis s))"
      "s' = s\<lparr>lis := (lis s)\<lparr>connChan := (connChan (lis s))\<lparr>ch_closed := True\<rparr>\<rparr>,
               wpc := W_exit\<rparr>"
  | (reclose) "wpc s = W_close" "ch_closed (connChan (lis s))"
      "s' = s\<lparr>crashed := Some CloseOfClosedChannel\<rparr>"
  using assms
  by (cases "wpc s") (auto simp: watcher_step_def chan_close_def split: if_splits)

lemma consumer_stepE:
  assumes "consumer_step s = Some s'"
  obtains
    (item) v vs where "ch_buf (connChan (lis s)) = v # vs"
      "s' = s\<lparr>lis := (lis s)\<lparr>connChan := (connChan (lis s))\<lparr>ch_buf := vs\<rparr>\<rparr>,
               accepted := accepted s @ [(Some v, None)]\<rparr>"
  | (closed) "ch_buf (connChan (lis s)) = []" "ch_closed (connChan (lis s))"
      "s' = s\<lparr>accepted := accepted s @ [(None, l_err (lis s))]\<rparr>"
  using assms
  by (cases "ch_buf (connChan (lis s))")
     (auto simp: consumer_step_def Accept_def chan_recv_def split: if_splits)

lemma handler_stepE:
  assumes "handler_step route i s = Some s'"
  obtains
    (acquire) buf pool cx where "h_pc (handlers s ! i) = H_begin"
      "bufPool_Get (bufPool s) = (buf, pool)"
      "cx = (WrapConnection i (h_conn (handlers s ! i)) (Reset buf))\<lparr>cx_listener := True\<rparr>"
      "s' = s\<lparr>bufPool := pool,
               handlers := (handlers s)
                 [i := (handlers s ! i)\<lparr>h_pc := H_chain, h_cx := Some cx,
                         h_run := Some (route cx), h_ops := cr_ops (route cx)\<rparr>]\<rparr>"
  | (setvar) cx k v ops where "h_pc (handlers s ! i) = H_chain"
      "h_cx (handlers s ! i) = Some cx" "h_ops (handlers s ! i) = SetVarOp k v # ops"
      "s' = s\<lparr>handlers := (handlers s)
                 [i := (handlers s ! i)\<lparr>h_cx := Some (SetVar k v cx), h_ops := ops\<rparr>]\<rparr>"
  | (wbuf) cx bs ops where "h_pc (handlers s ! i) = H_chain"
      "h_cx (handlers s ! i) = Some cx" "h_ops (handlers s ! i) = WriteBuf bs # ops"
      "s' = s\<lparr>handlers := (handlers s)
                 [i := (handlers s ! i)\<lparr>h_cx := Some (cx\<lparr>cx_buf := cx_buf cx @ bs\<rparr>),
                         h_ops := ops\<rparr>]\<rparr>"
  | (pipe_panic) cx ops p where "h_pc (handlers s ! i) = H_chain"
      "h_cx (handlers s ! i) = Some cx" "h_ops (handlers s ! i) = Pipe # ops"
      "pipeConnection (lis s) cx = Panicked p"
      "s' = s\<lparr>handlers := (handlers s)
                 [i := (handlers s ! i)\<lparr>h_pc := H_put, h_panic := Some p\<rparr>]\<rparr>"
  | (pipe) cx ops ss where "h_pc (handlers s ! i) = H_chain"
      "h_cx (handlers s ! i) = Some cx" "h_ops (handlers s ! i) = Pipe # ops"
      "\<not> ch_closed (connChan (lis s))"
      "s' = s\<lparr>lis := (lis s)\<lparr>connChan := (connChan (lis s))
                         \<lparr>ch_buf := ch_buf (connChan (lis s)) @ [pipe_item cx ss]\<rparr>\<rparr>,
               handlers := (handlers s)[i := (handlers s ! i)\<lparr>h_ops := ops\<rparr>]\<rparr>"
  | (return) cx r err where "h_pc (handlers s ! i) = H_chain"
      "h_cx (handlers s ! i) = Some cx" "h_ops (handlers s ! i) = []"
      "h_run (handlers s ! i) = Some r" "cr_end r = Returns err"
      "s' = s\<lparr>trace := trace s
                 @ emitted (GHandler i) (handle_report (h_conn (handlers s ! i)) err),
               handlers := (handlers s)
                 [i := (handlers s ! i)\<lparr>h_err := err, h_pc := H_put\<rparr>]\<rparr>"
  | (panics) cx r where "h_pc (handlers s ! i) = H_chain"
      "h_cx (handlers s ! i) = Some cx" "h_ops (handlers s ! i) = []"
      "h_run (handlers s ! i) = Some r" "cr_end r = Panics"
      "s' = s\<lparr>handlers := (handlers s)
                 [i := (handlers s ! i)\<lparr>h_pc := H_put, h_panic := Some HandlerPanic\<rparr>]\<rparr>"
  | (put) cx where "h_pc (handlers s ! i) = H_put" "h_cx (handlers s ! i) = Some cx"
      "s' = s\<lparr>bufPool := bufPool_Put (cx_buf cx) (bufPool s),
               handlers := (handlers s)[i := (handlers s ! i)\<lparr>h_pc := H_done\<rparr>]\<rparr>"
  | (negative) "h_pc (handlers s ! i) = H_done" "wg (lis s) - 1 < 0"
      "s' = s\<lparr>handlers := (handlers s)[i := (handlers s ! i)\<lparr>h_pc := H_exit\<rparr>],
               crashed := Some NegativeWaitGroup\<rparr>"
  | (wgdone) "h_pc (handlers s ! i) = H_done" "\<not> wg (lis s) - 1 < 0"
      "s' = s\<lparr>lis := (lis s)\<lparr>wg := wg (lis s) - 1\<rparr>,
               handlers := (handlers s)[i := (handlers s ! i)\<lparr>h_pc := H_close\<rparr>]\<rparr>"
  | (close) "h_pc (handlers s ! i) = H_close"
      "s' = s\<lparr>trace := trace s @ emitted (GHandler i)
                 (deferred_close (h_conn (handlers s ! i)) (h_err (handlers s ! i))),
               handlers := (handlers s)[i := (handlers s ! i)\<lparr>h_pc := H_exit\<rparr>],
               crashed := h_panic (handlers s ! i)\<rparr>"
proof (cases "h_pc (handlers s ! i)")
  case H_begin
  obtain buf pool where g: "bufPool_Get (bufPool s) = (buf, pool)"
    by (cases "bufPool_Get (bufPool s)")
  with assms H_begin acquire [OF H_begin g refl] show ?thesis
    by (simp add: handler_step_def Let_def)
next
  case H_chain
  from assms H_chain obtain cx where cx: "h_cx (handlers s ! i) = Some cx"
    by (cases "h_cx (handlers s ! i)") (auto simp: handler_step_def Let_def)
  show ?thesis
  proof (cases "h_ops (handlers s ! i)")
    case Nil
    from assms H_chain cx Nil obtain r where r: "h_run (handlers s ! i) = Some r"
      by (cases "h_run (handlers s ! i)") (auto simp: handler_step_def Let_def)
    show ?thesis
    proof (cases "cr_end r")
      case (Returns err)
      with assms H_chain cx Nil r return [OF H_chain cx Nil r Returns] show ?thesis
        by (simp add: handler_step_def Let_def)
    next
      case Panics
      with assms H_chain cx Nil r panics [OF H_chain cx Nil r Panics] show ?thesis
        by (simp add: handler_step_def Let_def)
    qed
  next
    case (Cons op ops)
    show ?thesis
    proof (cases op)
      case (SetVarOp k v)
      with assms H_chain cx Cons setvar [OF H_chain cx] show ?thesis
        by (simp add: handler_step_def Let_def)
    next
      case (WriteBuf bs)
      with assms H_chain cx Cons wbuf [OF H_chain cx] show ?thesis
        by (simp add: handler_step_def Let_def)
    next
      case Pipe
      show ?thesis
      proof (cases "pipeConnection (lis s) cx")
        case Blocked
        with assms H_chain cx Cons Pipe show ?thesis
          by (simp add: handler_step_def Let_def)
      next
        case (Panicked p)
        with assms H_chain cx Cons Pipe pipe_panic [OF H_chain cx _ Panicked] show ?thesis
          by (simp add: handler_step_def Let_def)
      next
        case (Done le)
        obtain l' e where le: "le = (l', e)" by (cases le)
        from pipeConnection_Done [of "lis s" cx l' e] Done le
        obtain ss where nc: "\<not> ch_closed (connChan (lis s))"
          and l': "l' = (lis s)\<lparr>connChan := (connChan (lis s))
                         \<lparr>ch_buf := ch_buf (connChan (lis s)) @ [pipe_item cx ss]\<rparr>\<rparr>"
          by auto
        from assms H_chain cx Cons Pipe Done le l' pipe [OF H_chain cx _ nc, of ops ss]
        show ?thesis
          by (simp add: handler_step_def Let_def)
      qed
    qed
  qed
next
  case H_put
  from assms H_put obtain cx where cx: "h_cx (handlers s ! i) = Some cx"
    by (cases "h_cx (handlers s ! i)") (auto simp: handler_step_def Let_def)
  with assms H_put put [OF H_put cx] show ?thesis
    by (simp add: handler_step_def Let_def)
next
  case H_done
  with assms negative [OF H_done] wgdone [OF H_done] show ?thesis
    by (auto simp: handler_step_def Let_def split: if_splits)
next
  case H_close
  with assms close [OF H_close] show ?thesis
    by (simp add: handler_step_def Let_def)
next
  case H_exit
  with assms show ?thesis by (simp add: handler_step_def Let_def)
qed

section \<open>The invariants hold in every reachable state\<close>

lemma length_filter_update_nat:
  "i < length xs \<Longrightarrow>
     length (filter P (xs[i := y])) + (if P (xs ! i) then 1 else 0) =
       length (filter P xs) + (if P y then 1 else 0)"
proof (induction xs arbitrary: i)
  case Nil
  then show ?case by simp
next
  case (Cons x xs)
  show ?case
  proof (cases i)
    case 0
    then show ?thesis by simp
  next
    case (Suc j)
    with Cons.prems have "j < length xs" by simp
    from Cons.IH [OF this] Suc show ?thesis by simp
  qed
qed

lemma length_filter_update:
  "i < length xs \<Longrightarrow>
     int (length (filter P (xs[i := y]))) =
       int (length (filter P xs)) - (if P (xs ! i) then 1 else 0) + (if P y then 1 else 0)"
  using length_filter_update_nat [of i xs P y] by (simp split: if_splits)

lemma filter_pos: "i < length xs \<Longrightarrow> P (xs ! i) \<Longrightarrow> 0 < length (filter P xs)"
  by (metis filter_empty_conv length_greater_0_conv nth_mem)

lemma set_update_cases: "x \<in> set (xs[i := y]) \<Longrightarrow> x = y \<or> x \<in> set xs"
  by (metis in_set_conv_nth length_list_update nth_list_update_eq nth_list_update_neq nth_mem)

lemma spawning_nonneg: "0 \<le> spawning pc"
  by (cases pc) auto

lemma inv_sync_idle:
  assumes "inv_sync s" and "wpc s = W_close \<or> wpc s = W_exit" and "i < length (handlers s)"
  shows "\<not> pre_done (handlers s ! i)"
proof
  assume "pre_done (handlers s ! i)"
  with assms(3) have "0 < int (length (filter pre_done (handlers s)))"
    using filter_pos [of i "handlers s" pre_done] by simp
  moreover have "wg (lis s) = int (length (filter pre_done (handlers s))) + spawning (lpc s)"
    using assms(1) by (simp add: inv_sync_def)
  moreover have "wg (lis s) = 0"
    using assms(1,2) by (auto simp: inv_sync_def)
  ultimately show False
    using spawning_nonneg [of "lpc s"] by linarith
qed

lemma inv_sync_wg_pos:
  assumes "inv_sync s" and "i < length (handlers s)" and "pre_done (handlers s ! i)"
  shows "0 < wg (lis s)"
proof -
  from assms(2,3) have "0 < int (length (filter pre_done (handlers s)))"
    using filter_pos [of i "handlers s" pre_done] by simp
  moreover have "wg (lis s) = int (length (filter pre_done (handlers s))) + spawning (lpc s)"
    using assms(1) by (simp add: inv_sync_def)
  ultimately show ?thesis
    using spawning_nonneg [of "lpc s"] by linarith
qed

lemma inv_sync_loop:
  assumes "inv_sync s" and "loop_step s = Some s'"
  shows "inv_sync s'"
  using assms(2,1)
  by (cases rule: loop_stepE)
     (auto simp: inv_sync_def new_handler_def pre_done_def holding_def)

lemma inv_sync_watcher:
  assumes "inv_sync s" and "watcher_step s = Some s'"
  shows "inv_sync s'"
  using assms(2,1)
  by (cases rule: watcher_stepE) (auto simp: inv_sync_def)

lemma inv_sync_consumer:
  assumes "inv_sync s" and "consumer_step s = Some s'"
  shows "inv_sync s'"
  using assms(2,1)
  by (cases rule: consumer_stepE) (auto simp: inv_sync_def)

lemma inv_sync_handler:
  assumes "inv_sync s" and "i < length (handlers s)" and "handler_step route i s = Some s'"
  shows "inv_sync s'"
  using assms(3)
proof (cases rule: handler_stepE)
  case (acquire buf pool cx)
  with assms(1,2) show ?thesis
    by (auto simp: inv_sync_def length_filter_update pre_done_def holding_def bufPool_Get_def
        dest!: set_update_cases split: list.splits)
next
  case (setvar cx k v ops)
  with assms(1,2) show ?thesis
    by (auto simp: inv_sync_def length_filter_update pre_done_def holding_def
        dest!: set_update_cases)
next
  case (wbuf cx bs ops)
  with assms(1,2) show ?thesis
    by (auto simp: inv_sync_def length_filter_update pre_done_def holding_def
        dest!: set_update_cases)
next
  case (pipe_panic cx ops p)
  have "\<not> ch_closed (connChan (lis s))"
    using inv_sync_idle [OF assms(1) _ assms(2)] assms(1) pipe_panic(1)
    by (auto simp: inv_sync_def pre_done_def)
  with pipe_panic(4) have "p = TypeAssertionFailed"
    by (auto dest: pipeConnection_Panicked)
  with pipe_panic assms(1,2) show ?thesis
    by (auto simp: inv_sync_def length_filter_update pre_done_def holding_def
        dest!: set_update_cases)
next
  case (pipe cx ops ss)
  with assms(1,2) show ?thesis
    by (auto simp: inv_sync_def length_filter_update pre_done_def holding_def
        dest!: set_update_cases)
next
  case (return cx r err)
  with assms(1,2) show ?thesis
    by (auto simp: inv_sync_def length_filter_update pre_done_def holding_def
        dest!: set_update_cases)
next
  case (panics cx r)
  with assms(1,2) show ?thesis
    by (auto simp: inv_sync_def length_filter_update pre_done_def holding_def
        dest!: set_update_cases)
next
  case (put cx)
  with assms(1,2) show ?thesis
    by (auto simp: inv_sync_def length_filter_update pre_done_def holding_def bufPool_Put_def
        dest!: set_update_cases)
next
  case negative
  with inv_sync_wg_pos [OF assms(1,2)] show ?thesis
    by (simp add: pre_done_def)
next
  case wgdone
  with assms(1,2) show ?thesis
    by (auto simp: inv_sync_def length_filter_update pre_done_def holding_def
        dest!: set_update_cases)
next
  case close
  have "no_sync_panic (h_panic (handlers s ! i))"
    using assms(1,2) by (simp add: inv_sync_def)
  with close assms(1,2) show ?thesis
    by (auto simp: inv_sync_def length_filter_update pre_done_def holding_def
        dest!: set_update_cases)
qed

lemma delivered_of_snoc [simp]:
  "delivered_of (rs @ [(Some v, e)]) = delivered_of rs @ [v]"
  "delivered_of (rs @ [(None, e)]) = delivered_of rs"
  by (induction rs rule: delivered_of.induct) auto

lemma count_id_simps [simp]:
  "count_id i c [] = 0"
  "count_id i c (v # vs) =
     (if cx_id (item_Connection v) = i \<and> cx_conn (item_Connection v) = c then 1 else 0)
     + count_id i c vs"
  "count_id i c (vs @ ws) = count_id i c vs + count_id i c ws"
  by (simp_all add: count_id_def)

lemma emitted_mem [simp]: "(g, e) \<in> set (emitted g' evs) \<longleftrightarrow> g = g' \<and> e \<in> set evs"
  by (auto simp: emitted_def)

lemma handler_trace_other [simp]:
  "g \<noteq> GHandler i \<Longrightarrow> handler_trace (tr @ emitted g evs) i h = handler_trace tr i h"
  by (auto simp: handler_trace_def)

lemma handler_trace_loop [simp]:
  "handler_trace (tr @ [(GLoop, e)]) i h = handler_trace tr i h"
  by (auto simp: handler_trace_def)

lemma inv_handlers_loop:
  assumes "inv s" and "loop_step s = Some s'"
  shows "inv_handlers s' \<and> inv_fresh s'"
  using assms(2)
proof (cases rule: loop_stepE)
  case (retry r rs evs)
  with assms(1) show ?thesis
    by (auto simp: inv_def inv_handlers_def inv_fresh_def sent_count_def)
next
  case (stop r rs evs err)
  with assms(1) show ?thesis
    by (auto simp: inv_def inv_handlers_def inv_fresh_def sent_count_def)
next
  case (dispatch r rs evs conn)
  with assms(1) show ?thesis
    by (auto simp: inv_def inv_handlers_def inv_fresh_def sent_count_def)
next
  case (crash r rs evs)
  with assms(1) show ?thesis
    by (auto simp: inv_def inv_handlers_def inv_fresh_def sent_count_def)
next
  case (add conn)
  with assms(1) show ?thesis
    by (auto simp: inv_def inv_handlers_def inv_fresh_def sent_count_def)
next
  case (go conn)
  have new: "handler_local (length (handlers s)) (new_handler conn)"
    by (simp add: handler_local_def new_handler_def)
  have tr: "handler_trace (trace s) (length (handlers s)) (new_handler conn)"
    using assms(1) by (auto simp: inv_def inv_fresh_def handler_trace_def new_handler_def)
  have cnt: "sent_count (length (handlers s)) c s = 0" for c
    using assms(1) by (simp add: inv_def inv_fresh_def)
  have sc: "sent_count j c s' = sent_count j c s" for j c
    using go by (simp add: sent_count_def)
  have h: "inv_handlers s'"
    unfolding inv_handlers_def
  proof (intro allI impI)
    fix j assume "j < length (handlers s')"
    then have "j < length (handlers s) \<or> j = length (handlers s)"
      using go by auto
    then show "handler_local j (handlers s' ! j) \<and> handler_trace (trace s') j (handlers s' ! j)
        \<and> sent_count j (h_conn (handlers s' ! j)) s' + count_list (h_ops (handlers s' ! j)) Pipe
            = npipes (h_run (handlers s' ! j))"
    proof
      assume "j < length (handlers s)"
      with assms(1) go sc show ?thesis
        by (simp add: inv_def inv_handlers_def nth_append)
    next
      assume "j = length (handlers s)"
      with new tr cnt sc go show ?thesis
        by (simp add: new_handler_def)
    qed
  qed
  have f: "inv_fresh s'"
    using assms(1) go sc by (auto simp: inv_def inv_fresh_def less_Suc_eq)
  from h f show ?thesis ..
next
  case watch
  with assms(1) show ?thesis
    by (auto simp: inv_def inv_handlers_def inv_fresh_def sent_count_def)
next
  case (drain v vs)
  then have sc: "sent_count j c s' = sent_count j c s" for j c
    by (simp add: sent_count_def)
  with assms(1) drain show ?thesis
    by (auto simp: inv_def inv_handlers_def inv_fresh_def)
next
  case exit
  with assms(1) show ?thesis
    by (auto simp: inv_def inv_handlers_def inv_fresh_def sent_count_def)
qed

lemma inv_handlers_watcher:
  assumes "inv s" and "watcher_step s = Some s'"
  shows "inv_handlers s' \<and> inv_fresh s'"
  using assms(2,1)
  by (cases rule: watcher_stepE)
     (auto simp: inv_def inv_handlers_def inv_fresh_def sent_count_def)

lemma inv_handlers_consumer:
  assumes "inv s" and "consumer_step s = Some s'"
  shows "inv_handlers s' \<and> inv_fresh s'"
  using assms(2)
proof (cases rule: consumer_stepE)
  case (item v vs)
  then have sc: "sent_count j c s' = sent_count j c s" for j c
    by (simp add: sent_count_def)
  with assms(1) item show ?thesis
    by (auto simp: inv_def inv_handlers_def inv_fresh_def)
next
  case closed
  then have sc: "sent_count j c s' = sent_count j c s" for j c
    by (simp add: sent_count_def)
  with assms(1) closed show ?thesis
    by (auto simp: inv_def inv_handlers_def inv_fresh_def)
qed

lemma emitted_Nil [simp]: "emitted g [] = []"
  by (simp add: emitted_def)

lemma inv_handlers_update:
  assumes "inv_handlers s" and "inv_fresh s" and "i < length (handlers s)"
    and "handlers s' = (handlers s)[i := h']"
    and "trace s' = trace s @ emitted (GHandler i) evs"
    and "\<And>j c. j \<noteq> i \<Longrightarrow> sent_count j c s' = sent_count j c s"
    and "handler_local i h'"
    and "handler_trace (trace s') i h'"
    and "sent_count i (h_conn h') s' + count_list (h_ops h') Pipe = npipes (h_run h')"
  shows "inv_handlers s' \<and> inv_fresh s'"
proof
  show "inv_handlers s'"
    unfolding inv_handlers_def
  proof (intro allI impI)
    fix j assume j: "j < length (handlers s')"
    show "handler_local j (handlers s' ! j) \<and> handler_trace (trace s') j (handlers s' ! j)
        \<and> sent_count j (h_conn (handlers s' ! j)) s' + count_list (h_ops (handlers s' ! j)) Pipe
            = npipes (h_run (handlers s' ! j))"
    proof (cases "j = i")
      case True
      with assms(3,4,7,8,9) show ?thesis by simp
    next
      case False
      with j assms(1,4,5) assms(6) [OF False] show ?thesis
        by (simp add: inv_handlers_def)
    qed
  qed
  show "inv_fresh s'"
    using assms(2,3,4,5,6) by (auto simp: inv_fresh_def)
qed

lemma inv_handlers_at:
  assumes "inv_handlers s" and "i < length (handlers s)"
  shows "handler_local i (handlers s ! i)" and "handler_trace (trace s) i (handlers s ! i)"
    and "sent_count i (h_conn (handlers s ! i)) s + count_list (h_ops (handlers s ! i)) Pipe
       = npipes (h_run (handlers s ! i))"
  using assms by (simp_all add: inv_handlers_def)

lemma inv_handlers_handler:
  assumes "inv s" and "i < length (handlers s)" and "handler_step route i s = Some s'"
  shows "inv_handlers s' \<and> inv_fresh s'"
proof -
  let ?h = "handlers s ! i"
  from assms(1) have ih: "inv_handlers s" and fr: "inv_fresh s" and isy: "inv_sync s"
    by (simp_all add: inv_def)
  note loc = inv_handlers_at(1) [OF ih assms(2)]
  note tr = inv_handlers_at(2) [OF ih assms(2)]
  note cnt = inv_handlers_at(3) [OF ih assms(2)]
  note upd = inv_handlers_update [OF ih fr assms(2)]
  from assms(3) show ?thesis
  proof (cases rule: handler_stepE)
    case (acquire buf pool cx)
    show ?thesis
      by (rule upd [where evs = "[]" and h' = "?h\<lparr>h_pc := H_chain, h_cx := Some cx,
               h_run := Some (route cx), h_ops := cr_ops (route cx)\<rparr>"])
         (use acquire loc tr cnt in
           \<open>simp_all add: sent_count_def handler_local_def handler_trace_def WrapConnection_def\<close>)
  next
    case (setvar cx k v ops)
    show ?thesis
      by (rule upd [where evs = "[]"
              and h' = "?h\<lparr>h_cx := Some (SetVar k v cx), h_ops := ops\<rparr>"])
         (use setvar loc tr cnt in
           \<open>simp_all add: sent_count_def handler_local_def handler_trace_def SetVar_def\<close>)
  next
    case (wbuf cx bs ops)
    show ?thesis
      by (rule upd [where evs = "[]"
              and h' = "?h\<lparr>h_cx := Some (cx\<lparr>cx_buf := cx_buf cx @ bs\<rparr>), h_ops := ops\<rparr>"])
         (use wbuf loc tr cnt in
           \<open>simp_all add: sent_count_def handler_local_def handler_trace_def\<close>)
  next
    case (pipe_panic cx ops p)
    show ?thesis
      by (rule upd [where evs = "[]" and h' = "?h\<lparr>h_pc := H_put, h_panic := Some p\<rparr>"])
         (use pipe_panic loc tr cnt in
           \<open>simp_all add: sent_count_def handler_local_def handler_trace_def\<close>)
  next
    case (pipe cx ops ss)
    from loc pipe have id: "cx_id cx = i" "cx_conn cx = h_conn ?h"
      by (simp_all add: handler_local_def)
    show ?thesis
      by (rule upd [where evs = "[]" and h' = "?h\<lparr>h_ops := ops\<rparr>"])
         (use pipe id loc tr cnt in
           \<open>simp_all add: sent_count_def handler_local_def handler_trace_def\<close>)
  next
    case (return cx r err)
    show ?thesis
      by (rule upd [where evs = "handle_report (h_conn ?h) err"
              and h' = "?h\<lparr>h_err := err, h_pc := H_put\<rparr>"])
         (use return loc tr cnt in
           \<open>auto simp: sent_count_def handler_local_def handler_trace_def handle_report_def
              split: option.splits\<close>)
  next
    case (panics cx r)
    show ?thesis
      by (rule upd [where evs = "[]"
              and h' = "?h\<lparr>h_pc := H_put, h_panic := Some HandlerPanic\<rparr>"])
         (use panics loc tr cnt in
           \<open>simp_all add: sent_count_def handler_local_def handler_trace_def\<close>)
  next
    case (put cx)
    show ?thesis
      by (rule upd [where evs = "[]" and h' = "?h\<lparr>h_pc := H_done\<rparr>"])
         (use put loc tr cnt in
           \<open>simp_all add: sent_count_def handler_local_def handler_trace_def\<close>)
  next
    case negative
    with inv_sync_wg_pos [OF isy assms(2)] show ?thesis
      by (simp add: pre_done_def)
  next
    case wgdone
    show ?thesis
      by (rule upd [where evs = "[]" and h' = "?h\<lparr>h_pc := H_close\<rparr>"])
         (use wgdone loc tr cnt in
           \<open>simp_all add: sent_count_def handler_local_def handler_trace_def\<close>)
  next
    case close
    show ?thesis
      by (rule upd [where evs = "deferred_close (h_conn ?h) (h_err ?h)"
              and h' = "?h\<lparr>h_pc := H_exit\<rparr>"])
         (use close loc tr cnt in
           \<open>auto simp: sent_count_def handler_local_def handler_trace_def deferred_close_def\<close>)
  qed
qed

subsection \<open>Every step keeps the invariants\<close>

lemma inv_step:
  assumes "inv s" and "step route g s = Some s'"
  shows "inv s'"
proof (cases g)
  case GLoop
  with assms have st: "loop_step s = Some s'"
    by (simp add: step_def split: if_splits)
  from inv_sync_loop [OF _ st] inv_handlers_loop [OF assms(1) st] assms(1)
  show ?thesis by (simp add: inv_def)
next
  case GWatcher
  with assms have st: "watcher_step s = Some s'"
    by (simp add: step_def split: if_splits)
  from inv_sync_watcher [OF _ st] inv_handlers_watcher [OF assms(1) st] assms(1)
  show ?thesis by (simp add: inv_def)
next
  case (GHandler i)
  with assms have i: "i < length (handlers s)" and st: "handler_step route i s = Some s'"
    by (simp_all add: step_def split: if_splits)
  from inv_sync_handler [OF _ i st] inv_handlers_handler [OF assms(1) i st] assms(1)
  show ?thesis by (simp add: inv_def)
next
  case GConsumer
  with assms have st: "consumer_step s = Some s'"
    by (simp add: step_def split: if_splits)
  from inv_sync_consumer [OF _ st] inv_handlers_consumer [OF assms(1) st] assms(1)
  show ?thesis by (simp add: inv_def)
qed

lemma inv_WrapListener: "inv (WrapListener cap free l)"
  by (simp add: inv_def inv_sync_def inv_handlers_def inv_fresh_def sent_count_def
      WrapListener_def)

lemma inv_run:
  assumes "run route gs s = Some s'" and "inv s"
  shows "inv s'"
  using assms
proof (induction gs arbitrary: s)
  case Nil
  then show ?case by simp
next
  case (Cons g gs)
  from Cons.prems(1) obtain s1 where s1: "step route g s = Some s1" "run route gs s1 = Some s'"
    by (auto split: option.splits)
  from inv_step [OF Cons.prems(2) s1(1)] Cons.IH [OF s1(2)] show ?case by simp
qed

lemma inv_reachable:
  assumes "run route gs (WrapListener cap free l) = Some s"
  shows "inv s"
  using inv_run [OF assms inv_WrapListener] .

section \<open>The two runs\<close>

lemmas eval_defs =
  step_def loop_step_def watcher_step_def handler_step_def consumer_step_def loop_iter_def
  setKeepAliveWorkarround_def WrapListener_def new_handler_def bufPool_Get_def bufPool_Put_def
  Reset_def WrapConnection_def pipeConnection_def connectionStates_of_def GetVar_def
  pipe_item_def chan_send_def chan_recv_def chan_close_def Accept_def handle_report_def
  deferred_close_def emitted_def errHijacked_def Let_def


lemma ex_drain_run: "run ex_pipe_route ex_drain_sched ex_drain_start = Some ex_drain_final"
  by (simp add: ex_drain_sched_def ex_drain_start_def ex_drain_final_def ex_pipe_route_def
        ex_cx0_def ex_fatal_def eval_defs)

section \<open>The accept loop: properties\<close>

lemma stopped_step:
  assumes "accept_stopped (lpc s)" and "step route g s = Some s'"
  shows "accept_stopped (lpc s') \<and> raw s' = raw s \<and> l_err (lis s') = l_err (lis s)
       \<and> length (handlers s') = length (handlers s)"
proof (cases g)
  case GLoop
  with assms(2) have "loop_step s = Some s'"
    by (simp add: step_def split: if_splits)
  then show ?thesis
    using assms(1) by (cases rule: loop_stepE) auto
next
  case GWatcher
  with assms(2) have "watcher_step s = Some s'"
    by (simp add: step_def split: if_splits)
  then show ?thesis
    using assms(1) by (cases rule: watcher_stepE) auto
next
  case (GHandler i)
  with assms(2) have "handler_step route i s = Some s'"
    by (simp add: step_def split: if_splits)
  then show ?thesis
    using assms(1) by (cases rule: handler_stepE) auto
next
  case GConsumer
  with assms(2) have "consumer_step s = Some s'"
    by (simp add: step_def split: if_splits)
  then show ?thesis
    using assms(1) by (cases rule: consumer_stepE) auto
qed

lemma stopped_run:
  assumes "run route gs s = Some s'" and "accept_stopped (lpc s)"
  shows "accept_stopped (lpc s') \<and> raw s' = raw s \<and> l_err (lis s') = l_err (lis s)
       \<and> length (handlers s') = length (handlers s)"
  using assms
proof (induction gs arbitrary: s)
  case Nil
  then show ?case by simp
next
  case (Cons g gs)
  from Cons.prems(1) obtain s1 where s1: "step route g s = Some s1" "run route gs s1 = Some s'"
    by (auto split: option.splits)
  from stopped_step [OF Cons.prems(2) s1(1)] Cons.IH [OF s1(2)] show ?case by simp
qed

text \<open>
  C6: when Accept fails with an error that is a \<^verbatim>\<open>net.Error\<close> reporting
  \<^verbatim>\<open>Temporary()\<close>, the loop logs it at error level and is again about to call Accept,
  with nothing else changed; when Accept fails with any other error, the loop records it
  in \<^verbatim>\<open>l.err\<close> and leaves the accept phase, and from then on, whatever the goroutines
  do, it never consumes another answer of the raw listener, never spawns another
  handler, and the recorded error stays.
\<close>

theorem accept_error_retry_or_stop:
  assumes "lpc s = L_accept" and "raw s = AcceptFailed err # rs" and "crashed s = None"
  shows "(err_temporary err = Some True \<longrightarrow>
            step route GLoop s
              = Some (s\<lparr>raw := rs,
                        trace := trace s
                          @ [(GLoop, LogError ''temporary error accepting connection'' err)]\<rparr>))
       \<and> (err_temporary err \<noteq> Some True \<longrightarrow>
            step route GLoop s
              = Some (s\<lparr>raw := rs, lis := (lis s)\<lparr>l_err := Some err\<rparr>, lpc := L_watch\<rparr>)
            \<and> (\<forall>gs s'. run route gs (s\<lparr>raw := rs, lis := (lis s)\<lparr>l_err := Some err\<rparr>,
                                        lpc := L_watch\<rparr>)
                          = Some s' \<longrightarrow>
                   accept_stopped (lpc s') \<and> raw s' = rs \<and> l_err (lis s') = Some err
                   \<and> length (handlers s') = length (handlers s)))"
proof -
  have a: "step route GLoop s
      = Some (s\<lparr>raw := rs,
                trace := trace s
                  @ [(GLoop, LogError ''temporary error accepting connection'' err)]\<rparr>)"
    if "err_temporary err = Some True"
    using that assms by (simp add: step_def loop_step_def loop_iter_def emitted_def)
  have b: "step route GLoop s
      = Some (s\<lparr>raw := rs, lis := (lis s)\<lparr>l_err := Some err\<rparr>, lpc := L_watch\<rparr>)"
    if "err_temporary err \<noteq> Some True"
    using that assms by (simp add: step_def loop_step_def loop_iter_def emitted_def)
  have c: "accept_stopped (lpc s') \<and> raw s' = rs \<and> l_err (lis s') = Some err
      \<and> length (handlers s') = length (handlers s)"
    if "run route gs (s\<lparr>raw := rs, lis := (lis s)\<lparr>l_err := Some err\<rparr>, lpc := L_watch\<rparr>) = Some s'" for gs s'
    using stopped_run [OF that] by simp
  from a b c show ?thesis by blast
qed

theorem accept_error_retry_or_stop_witness:
  "step ex_route GLoop (WrapListener 1 [] [AcceptFailed ex_temporary, AcceptFailed ex_fatal])
     = Some ((WrapListener 1 [] [AcceptFailed ex_temporary, AcceptFailed ex_fatal])
               \<lparr>raw := [AcceptFailed ex_fatal],
                 trace := [(GLoop, LogError ''temporary error accepting connection''
                                     ex_temporary)]\<rparr>)
   \<and> step ex_route GLoop (WrapListener 1 [] [AcceptFailed ex_fatal])
     = Some ((WrapListener 1 [] [AcceptFailed ex_fatal])
               \<lparr>raw := [],
                 lis := \<lparr>l_err = Some ex_fatal,
                         connChan = \<lparr>ch_buf = [], ch_cap = 1, ch_closed = False\<rparr>, wg = 0\<rparr>,
                 lpc := L_watch\<rparr>)"
proof -
  have t: "lpc (WrapListener 1 [] [AcceptFailed ex_temporary, AcceptFailed ex_fatal]) = L_accept"
    "raw (WrapListener 1 [] [AcceptFailed ex_temporary, AcceptFailed ex_fatal])
       = AcceptFailed ex_temporary # [AcceptFailed ex_fatal]"
    "crashed (WrapListener 1 [] [AcceptFailed ex_temporary, AcceptFailed ex_fatal]) = None"
    by (simp_all add: WrapListener_def)
  have f: "lpc (WrapListener 1 [] [AcceptFailed ex_fatal]) = L_accept"
    "raw (WrapListener 1 [] [AcceptFailed ex_fatal]) = AcceptFailed ex_fatal # []"
    "crashed (WrapListener 1 [] [AcceptFailed ex_fatal]) = None"
    by (simp_all add: WrapListener_def)
  from accept_error_retry_or_stop [OF t, of ex_route]
       accept_error_retry_or_stop [OF f, of ex_route]
  show ?thesis
    by (simp add: ex_temporary_def ex_fatal_def WrapListener_def)
qed

section \<open>The hand-off channel is closed last\<close>

text \<open>
  C3: in every reachable state, if the channel is closed, or the goroutine of lines
  113-116 is about to close it, then the accept loop has left its accept phase, the
  wait-group's counter is zero and every handler goroutine has called \<^verbatim>\<open>wg.Done()\<close>, so
  none is inside the chain where \<^verbatim>\<open>pipeConnection\<close> sends; the counter always equals the
  number of handler goroutines that have not called \<^verbatim>\<open>wg.Done()\<close> plus one for a handler
  that the loop has counted and not yet spawned; no goroutine has panicked, and no
  handler that is inside its chain can panic, with a send on a closed channel; and once
  the loop has left its accept phase it stays out of it and spawns no handler.
\<close>

theorem connChan_closed_after_all_handlers_done:
  assumes "run route gs (WrapListener cap free l) = Some s"
  shows "(ch_closed (connChan (lis s)) \<or> wpc s = W_close \<longrightarrow>
            accept_stopped (lpc s) \<and> wg (lis s) = 0
            \<and> (\<forall>h \<in> set (handlers s). \<not> pre_done h))
       \<and> wg (lis s) = int (length (filter pre_done (handlers s))) + spawning (lpc s)
       \<and> crashed s \<noteq> Some SendOnClosedChannel
       \<and> (\<forall>h \<in> set (handlers s). h_panic h \<noteq> Some SendOnClosedChannel)
       \<and> (\<forall>i cx. i < length (handlers s) \<and> h_pc (handlers s ! i) = H_chain \<longrightarrow>
              pipeConnection (lis s) cx \<noteq> Panicked SendOnClosedChannel)
       \<and> (\<forall>gs' s'. accept_stopped (lpc s) \<and> run route gs' s = Some s' \<longrightarrow>
              accept_stopped (lpc s') \<and> raw s' = raw s
              \<and> length (handlers s') = length (handlers s))"
proof -
  from inv_reachable [OF assms] have sy: "inv_sync s"
    by (simp add: inv_def)
  have idle: "\<not> pre_done (handlers s ! i)"
    if "ch_closed (connChan (lis s)) \<or> wpc s = W_close" "i < length (handlers s)" for i
    using inv_sync_idle [OF sy _ that(2)] that(1) sy by (auto simp: inv_sync_def)
  have a: "accept_stopped (lpc s) \<and> wg (lis s) = 0 \<and> (\<forall>h \<in> set (handlers s). \<not> pre_done h)"
    if c: "ch_closed (connChan (lis s)) \<or> wpc s = W_close"
  proof -
    from c sy have w: "wpc s = W_close \<or> wpc s = W_exit"
      by (auto simp: inv_sync_def)
    with sy have "draining (lpc s)" and z: "wg (lis s) = 0"
      by (auto simp: inv_sync_def)
    then have "accept_stopped (lpc s)"
      by (cases "lpc s") auto
    moreover have "\<forall>h \<in> set (handlers s). \<not> pre_done h"
      using idle [OF c] by (auto simp: in_set_conv_nth)
    ultimately show ?thesis using z by simp
  qed
  have b: "wg (lis s) = int (length (filter pre_done (handlers s))) + spawning (lpc s)"
    using sy by (simp add: inv_sync_def)
  have c: "crashed s \<noteq> Some SendOnClosedChannel"
    using sy by (auto simp: inv_sync_def)
  have d: "\<forall>h \<in> set (handlers s). h_panic h \<noteq> Some SendOnClosedChannel"
    using sy by (auto simp: inv_sync_def)
  have e: "pipeConnection (lis s) cx \<noteq> Panicked SendOnClosedChannel"
    if "i < length (handlers s)" "h_pc (handlers s ! i) = H_chain" for i cx
  proof
    assume "pipeConnection (lis s) cx = Panicked SendOnClosedChannel"
    then have "ch_closed (connChan (lis s))"
      by (auto dest: pipeConnection_Panicked)
    from idle [OF _ that(1)] this that(2) show False
      by (simp add: pre_done_def)
  qed
  have f: "accept_stopped (lpc s') \<and> raw s' = raw s \<and> length (handlers s') = length (handlers s)"
    if "accept_stopped (lpc s)" "run route gs' s = Some s'" for gs' s'
    using stopped_run [OF that(2,1)] by simp
  from a b c d e f show ?thesis by blast
qed

theorem connChan_closed_after_all_handlers_done_witness:
  "run ex_pipe_route ex_drain_sched (WrapListener 1 [] [Accepted (OtherConn 1), AcceptFailed ex_fatal])
     = Some ex_drain_final
   \<and> ch_closed (connChan (lis ex_drain_final))
   \<and> accept_stopped (lpc ex_drain_final) \<and> wg (lis ex_drain_final) = 0
   \<and> h_pc (handlers ex_drain_final ! 0) = H_exit
   \<and> crashed ex_drain_final \<noteq> Some SendOnClosedChannel"
proof -
  have r: "run ex_pipe_route ex_drain_sched
             (WrapListener 1 [] [Accepted (OtherConn 1), AcceptFailed ex_fatal])
           = Some ex_drain_final"
    using ex_drain_run by (simp add: ex_drain_start_def)
  have c: "ch_closed (connChan (lis ex_drain_final))"
    "h_pc (handlers ex_drain_final ! 0) = H_exit"
    by (simp_all add: ex_drain_final_def)
  from connChan_closed_after_all_handlers_done [OF r] r c show ?thesis by simp
qed

section \<open>The handler goroutine: properties\<close>





section \<open>Closed by the handler or handed off\<close>





end
